theory Spec2Isabelle
  imports Complex_Main
begin

section \<open>Messages exchanged between popup, service worker and offscreen document\<close>

text \<open>
  A captured frame is the data URL string returned by \<open>chrome.tabs.captureVisibleTab\<close>.
  The user-visible error texts of the extension are Japanese sentences; they are named by
  the constructors of \<open>reason\<close> in the order in which they occur in the sources.
\<close>

type_synonym dataUrl = string

datatype reason =
    AlreadyRunning          \<comment> \<open>service worker: a capture is already running\<close>
  | NoActiveTab             \<comment> \<open>service worker: no active tab was found\<close>
  | NotKindlePage           \<comment> \<open>service worker: the tab is not a Kindle Cloud Reader page\<close>
  | StartFailed             \<comment> \<open>service worker: \<open>err.message\<close> of an exception during start\<close>
  | PdfSetupFailed          \<comment> \<open>service worker: offscreen document could not be set up\<close>
  | DownloadFailed          \<comment> \<open>service worker: \<open>chrome.downloads.download\<close> rejected\<close>
  | NoImagesForPdf          \<comment> \<open>offscreen: \<open>buildPdf\<close> was given no image\<close>
  | PdfBuildFailed          \<comment> \<open>offscreen: an exception inside \<open>buildPdf\<close>\<close>
  | BadPageNumber           \<comment> \<open>popup: page numbers missing or below 1\<close>
  | StartAfterEnd           \<comment> \<open>popup: start page greater than end page\<close>
  | DelayTooShort           \<comment> \<open>popup: delay missing or below 500 ms\<close>

text \<open>
  What \<open>canvas.toDataURL\<close> returns is not a function of a string that the program computes,
  so picture contents are terms: the captured data URL, a centre crop of a picture
  (\<open>sx sy w h\<close> as passed to \<open>drawImage\<close>) or a rescaling of it (\<open>newW newH\<close>).
\<close>

datatype picture =
    Orig dataUrl
  | Crop picture int int int int
  | Resize picture int int

text \<open>A page of the PDF: the page format given to jsPDF and the image placed on it.\<close>

record page =
  pageW :: real
  pageH :: real
  landscape :: bool
  content :: picture
  imgW :: real
  imgH :: real

datatype message =
    Progress int int
  | CaptureComplete
  | CaptureStopped
  | CaptureError reason
  | DownloadReady nat
  | GeneratePdf "dataUrl list" int int int int
  | GeneratePdfBatchInit nat nat int int int int
  | GeneratePdfBatch nat "dataUrl list" bool
  | PdfReady "page list"

text \<open>
  \<open>GeneratePdf images cropWidth cropHeight outputWidth outputHeight\<close>,
  \<open>GeneratePdfBatchInit totalBatches totalImages cropWidth cropHeight outputWidth outputHeight\<close>
  and \<open>GeneratePdfBatch batchIndex images isLast\<close> are the three messages sent with
  \<open>target: 'offscreen'\<close>, the only ones the offscreen document reacts to; \<open>PdfReady\<close>
  carries the finished document (the source sends a blob URL of it).
\<close>

section \<open>Offscreen document (offscreen/offscreen.js)\<close>

subsection \<open>Images\<close>

text \<open>
  An \<open>HTMLImageElement\<close> after \<open>onload\<close>: \<open>img.src\<close>, \<open>img.naturalWidth\<close>,
  \<open>img.naturalHeight\<close>, and \<open>img.width\<close>, \<open>img.height\<close> (here \<open>elemWidth\<close>,
  \<open>elemHeight\<close>).
\<close>

record image =
  src :: picture
  naturalWidth :: nat
  naturalHeight :: nat
  elemWidth :: nat
  elemHeight :: nat

text \<open>The object \<open>{ dataUrl, width, height }\<close> returned by crop and resize.\<close>

record processed =
  dataUrl :: picture
  width :: int
  height :: int

text \<open>
  \<open>loadImage\<close> resolves with the decoded image or rejects. Whether a picture decodes, and
  to which pixel size, is a fact of the browser, the parameter \<open>dec\<close> (\<open>None\<close>: the image
  fails to load). An image element that is not part of a document reports its natural
  size as \<open>width\<close> and \<open>height\<close>.
\<close>

type_synonym decoder = "picture \<Rightarrow> (nat \<times> nat) option"

definition loadImage :: "decoder \<Rightarrow> picture \<Rightarrow> image option" where
  "loadImage dec p =
     (case dec p of
        None \<Rightarrow> None
      | Some (w, h) \<Rightarrow>
          Some \<lparr>src = p, naturalWidth = w, naturalHeight = h, elemWidth = w, elemHeight = h\<rparr>)"

subsection \<open>cropImage\<close>

text \<open>
  \<open>targetWidth\<close> and \<open>targetHeight\<close> are the numbers of the message (\<open>msg.cropWidth || 0\<close>),
  integers here; \<open>!t\<close> is \<open>t = 0\<close> and the truthiness test \<open>t && \<dots>\<close> is \<open>t \<noteq> 0 \<and> \<dots>\<close>.
  \<open>Math.floor(x / 2)\<close> on an integer is \<open>x div 2\<close>, which rounds down in HOL as well.
\<close>

definition cropImage :: "image \<Rightarrow> int \<Rightarrow> int \<Rightarrow> processed" where
  "cropImage img targetWidth targetHeight =
     (let srcW = int (naturalWidth img);
          srcH = int (naturalHeight img)
      in if (targetWidth = 0 \<and> targetHeight = 0) \<or> (targetWidth \<ge> srcW \<and> targetHeight \<ge> srcH)
         then \<lparr>dataUrl = src img, width = srcW, height = srcH\<rparr>
         else
           (let cropW = (if targetWidth \<noteq> 0 \<and> targetWidth < srcW then targetWidth else srcW);
                cropH = (if targetHeight \<noteq> 0 \<and> targetHeight < srcH then targetHeight else srcH);
                sx = (srcW - cropW) div 2;
                sy = (srcH - cropH) div 2
            in \<lparr>dataUrl = Crop (src img) sx sy cropW cropH, width = cropW, height = cropH\<rparr>))"

subsection \<open>resizeImage\<close>

text \<open>
  \<open>img.naturalWidth || img.width\<close> takes the second operand when the first is 0.
  The scale is a JavaScript number; it is modelled by an exact real, and \<open>Math.round\<close>
  (round half up) by \<open>\<lfloor>x + 1/2\<rfloor>\<close>. A division by a source dimension of 0 gives
  an infinity or NaN in JavaScript and 0 in HOL: the model is the source for images with
  positive size only, and the statements about \<open>resizeImage\<close> carry that hypothesis.
\<close>

definition srcW_of :: "image \<Rightarrow> nat" where
  "srcW_of img = (if naturalWidth img \<noteq> 0 then naturalWidth img else elemWidth img)"

definition srcH_of :: "image \<Rightarrow> nat" where
  "srcH_of img = (if naturalHeight img \<noteq> 0 then naturalHeight img else elemHeight img)"

definition Math_round :: "real \<Rightarrow> int" where
  "Math_round x = \<lfloor>x + 1 / 2\<rfloor>"

definition resize_scale :: "image \<Rightarrow> int \<Rightarrow> int \<Rightarrow> real" where
  "resize_scale img targetWidth targetHeight =
     (let srcW = real (srcW_of img);
          srcH = real (srcH_of img)
      in if targetWidth \<noteq> 0 \<and> targetHeight \<noteq> 0
         then min (real_of_int targetWidth / srcW) (real_of_int targetHeight / srcH)
         else if targetWidth \<noteq> 0 then real_of_int targetWidth / srcW
         else real_of_int targetHeight / srcH)"

definition resizeImage :: "image \<Rightarrow> int \<Rightarrow> int \<Rightarrow> processed" where
  "resizeImage img targetWidth targetHeight =
     (let srcW = srcW_of img;
          srcH = srcH_of img
      in if targetWidth = 0 \<and> targetHeight = 0
         then \<lparr>dataUrl = src img, width = int srcW, height = int srcH\<rparr>
         else
           (let scale = resize_scale img targetWidth targetHeight
            in if scale \<ge> 1
               then \<lparr>dataUrl = src img, width = int srcW, height = int srcH\<rparr>
               else
                 (let newW = Math_round (real srcW * scale);
                      newH = Math_round (real srcH * scale)
                  in \<lparr>dataUrl = Resize (src img) newW newH, width = newW, height = newH\<rparr>)))"

subsection \<open>processImage and buildPdf\<close>

text \<open>\<open>None\<close>: the \<open>loadImage\<close> of the cropped picture rejected (the exception propagates).\<close>

definition processImage ::
  "decoder \<Rightarrow> image \<Rightarrow> dataUrl \<Rightarrow> bool \<Rightarrow> int \<Rightarrow> int \<Rightarrow> bool \<Rightarrow> int \<Rightarrow> int \<Rightarrow> processed option" where
  "processImage dec img d needsCrop cropW cropH needsResize outW outH =
     (let result = (if needsCrop then cropImage img cropW cropH
                    else \<lparr>dataUrl = Orig d, width = int (naturalWidth img),
                          height = int (naturalHeight img)\<rparr>)
      in if needsResize
         then (case loadImage dec (dataUrl result) of
                 None \<Rightarrow> None
               | Some tempImg \<Rightarrow> Some (resizeImage tempImg outW outH))
         else Some result)"

definition pxToMm :: real where
  "pxToMm = 25.4 / 72"

text \<open>One pass of the loop \<open>for (let i = 0; i < images.length; i++)\<close> per list element.\<close>

fun processAll ::
  "decoder \<Rightarrow> bool \<Rightarrow> int \<Rightarrow> int \<Rightarrow> bool \<Rightarrow> int \<Rightarrow> int \<Rightarrow> dataUrl list \<Rightarrow> processed list option" where
  "processAll dec nc cw ch nr ow oh [] = Some []"
| "processAll dec nc cw ch nr ow oh (d # ds) =
     (case loadImage dec (Orig d) of
        None \<Rightarrow> None
      | Some img \<Rightarrow>
          (case processImage dec img d nc cw ch nr ow oh of
             None \<Rightarrow> None
           | Some p \<Rightarrow>
               (case processAll dec nc cw ch nr ow oh ds of
                  None \<Rightarrow> None
                | Some ps \<Rightarrow> Some (p # ps))))"

definition page_of :: "processed \<Rightarrow> processed \<Rightarrow> page" where
  "page_of fmt p =
     \<lparr>pageW = real_of_int (width fmt) * pxToMm, pageH = real_of_int (height fmt) * pxToMm,
      landscape = (width fmt > height fmt), content = dataUrl p,
      imgW = real_of_int (width p) * pxToMm, imgH = real_of_int (height p) * pxToMm\<rparr>"

text \<open>
  \<open>buildPdf\<close> reads \<open>cropSettings\<close> and \<open>sizeSettings\<close> before its first \<open>await\<close>, that is
  at the moment of the call; they are its arguments here. The result is the one message it
  sends. The first page takes its format from \<open>first\<close>, every later page from its own
  processed image.
\<close>

definition buildPdf :: "decoder \<Rightarrow> int \<times> int \<Rightarrow> int \<times> int \<Rightarrow> dataUrl list \<Rightarrow> message" where
  "buildPdf dec cropSettings sizeSettings images =
     (if images = [] then CaptureError NoImagesForPdf
      else
        (let cropWidth = fst cropSettings; cropHeight = snd cropSettings;
             outputWidth = fst sizeSettings; outputHeight = snd sizeSettings;
             needsCrop = (cropWidth > 0 \<or> cropHeight > 0);
             needsResize = (outputWidth > 0 \<or> outputHeight > 0)
         in case loadImage dec (Orig (hd images)) of
              None \<Rightarrow> CaptureError PdfBuildFailed
            | Some firstImg \<Rightarrow>
                (case processImage dec firstImg (hd images) needsCrop cropWidth cropHeight
                        needsResize outputWidth outputHeight of
                   None \<Rightarrow> CaptureError PdfBuildFailed
                 | Some first \<Rightarrow>
                     (case processAll dec needsCrop cropWidth cropHeight
                             needsResize outputWidth outputHeight images of
                        None \<Rightarrow> CaptureError PdfBuildFailed
                      | Some ps \<Rightarrow>
                          PdfReady (page_of first (hd ps) # map (\<lambda>p. page_of p p) (tl ps))))))"

subsection \<open>The message listener\<close>

record offscreen =
  batchedImages :: "dataUrl list"
  totalBatches :: nat
  receivedBatches :: nat
  cropSettings :: "int \<times> int"
  sizeSettings :: "int \<times> int"

definition offscreen_init :: offscreen where
  "offscreen_init =
     \<lparr>batchedImages = [], totalBatches = 0, receivedBatches = 0,
      cropSettings = (0, 0), sizeSettings = (0, 0)\<rparr>"

text \<open>
  A call \<open>buildPdf(images)\<close> made by the listener, with the settings it reads.
  The listener returns the new globals and the calls it made; \<open>batchIndex\<close> is not read.
\<close>

record buildCall =
  callCrop :: "int \<times> int"
  callSize :: "int \<times> int"
  callImages :: "dataUrl list"

definition buildPdf_call :: "offscreen \<Rightarrow> dataUrl list \<Rightarrow> buildCall" where
  "buildPdf_call s images =
     \<lparr>callCrop = cropSettings s, callSize = sizeSettings s, callImages = images\<rparr>"

fun onMessage :: "offscreen \<Rightarrow> message \<Rightarrow> offscreen \<times> buildCall list" where
  "onMessage s (GeneratePdf images cw ch ow oh) =
     (let s1 = s\<lparr>cropSettings := (cw, ch), sizeSettings := (ow, oh)\<rparr>
      in (s1, [buildPdf_call s1 images]))"
| "onMessage s (GeneratePdfBatchInit tb ti cw ch ow oh) =
     (s\<lparr>batchedImages := [], totalBatches := tb, receivedBatches := 0,
        cropSettings := (cw, ch), sizeSettings := (ow, oh)\<rparr>, [])"
| "onMessage s (GeneratePdfBatch batchIndex images isLast) =
     (let s1 = s\<lparr>batchedImages := batchedImages s @ images,
                  receivedBatches := receivedBatches s + 1\<rparr>
      in if isLast \<or> receivedBatches s1 \<ge> totalBatches s1
         then (s1\<lparr>batchedImages := []\<rparr>, [buildPdf_call s1 (batchedImages s1)])
         else (s1, []))"
| "onMessage s _ = (s, [])"

text \<open>The listener run on messages in their order of arrival.\<close>

fun deliver :: "offscreen \<Rightarrow> message list \<Rightarrow> offscreen \<times> buildCall list" where
  "deliver s [] = (s, [])"
| "deliver s (m # ms) =
     (let (s1, cs1) = onMessage s m;
          (s2, cs2) = deliver s1 ms
      in (s2, cs1 @ cs2))"

definition run_build :: "decoder \<Rightarrow> buildCall \<Rightarrow> message" where
  "run_build dec c = buildPdf dec (callCrop c) (callSize c) (callImages c)"

section \<open>Service worker (the capture orchestrator)\<close>

subsection \<open>The browser as seen by the service worker\<close>

text \<open>
  Every \<open>await\<close> of the service worker is one step of a clock. What the browser does at a
  step is a parameter, the \<open>world\<close>: whether a \<open>stopCapture\<close> message is handled while the
  worker is suspended at that step, and how the Chrome API call made at that step ends.
\<close>

datatype reply = Rejected | NoResponse | Response bool

record world =
  stopAt :: "nat \<Rightarrow> bool"             \<comment> \<open>a \<open>stopCapture\<close> message is handled during this await\<close>
  zoomOk :: "nat \<Rightarrow> bool"             \<comment> \<open>\<open>chrome.tabs.setZoom\<close> resolves (else it rejects)\<close>
  shot :: "nat \<Rightarrow> dataUrl option"     \<comment> \<open>\<open>captureVisibleTab\<close>: the data URL, or it rejects\<close>
  msgOk :: "nat \<Rightarrow> bool"              \<comment> \<open>\<open>tabs.sendMessage\<close> of a page turn resolves\<close>
  probe :: "nat \<Rightarrow> reply"             \<comment> \<open>answer to \<open>ping\<close> and \<open>isContentReady\<close>\<close>
  injectOk :: "nat \<Rightarrow> bool"           \<comment> \<open>\<open>scripting.executeScript\<close> resolves\<close>
  offscreenOk :: "nat \<Rightarrow> bool"        \<comment> \<open>\<open>setupOffscreenDocument\<close> resolves\<close>
  downloadOk :: "nat \<Rightarrow> bool"         \<comment> \<open>\<open>downloads.download\<close> resolves\<close>

text \<open>
  The tab: the clock, the zoom factor of the tab and the \<open>setZoom\<close> calls made so far
  (requested factor, and whether the call resolved). A rejected \<open>setZoom\<close> leaves the
  factor as it was.
\<close>

record env =
  clock :: nat
  tabZoom :: real
  zoomCalls :: "(real \<times> bool) list"

definition tick :: "env \<Rightarrow> env" where
  "tick e = e\<lparr>clock := clock e + 1\<rparr>"

definition sleep :: "int \<Rightarrow> env \<Rightarrow> env" where
  "sleep ms e = tick e"

definition setZoom :: "world \<Rightarrow> real \<Rightarrow> env \<Rightarrow> bool \<times> env" where
  "setZoom w z e =
     (if zoomOk w (clock e)
      then (True, tick (e\<lparr>tabZoom := z, zoomCalls := zoomCalls e @ [(z, True)]\<rparr>))
      else (False, tick (e\<lparr>zoomCalls := zoomCalls e @ [(z, False)]\<rparr>)))"

definition captureVisibleTab :: "world \<Rightarrow> env \<Rightarrow> dataUrl option \<times> env" where
  "captureVisibleTab w e = (shot w (clock e), tick e)"

text \<open>
  \<open>captureVisibleTab\<close> is called with \<open>format: 'png'\<close>. The data URL of a PNG picture is
  the prefix \<open>data:image/png;base64,\<close> (22 characters) followed by the base64 text of the
  file, which comes in groups of four characters.
\<close>

definition png_prefix :: string where
  "png_prefix = ''data:image/png;base64,''"

definition png_dataUrl :: "dataUrl \<Rightarrow> bool" where
  "png_dataUrl d \<longleftrightarrow> take 22 d = png_prefix \<and> (length d - 22) mod 4 = 0"

subsection \<open>captureWithZoom\<close>

definition MAX_RETRIES :: nat where
  "MAX_RETRIES = 3"

declare MAX_RETRIES_def [simp]

text \<open>
  The \<open>try\<close> block of one attempt: zoom in, wait, capture, restore the zoom, wait.
  \<open>None\<close> with the tab at the point of the exception when one of the three calls rejects.
\<close>

definition try_capture :: "world \<Rightarrow> real \<Rightarrow> env \<Rightarrow> dataUrl option \<times> env" where
  "try_capture w zoomLevel e =
     (case setZoom w zoomLevel e of
        (False, e1) \<Rightarrow> (None, e1)
      | (True, e1) \<Rightarrow>
          (case captureVisibleTab w (sleep 400 e1) of
             (None, e3) \<Rightarrow> (None, e3)
           | (Some d, e3) \<Rightarrow>
               (case setZoom w 1 e3 of
                  (False, e4) \<Rightarrow> (None, e4)
                | (True, e4) \<Rightarrow> (Some d, sleep 200 e4))))"

text \<open>
  The \<open>catch\<close> block up to its \<open>sleep\<close>: the zoom is set back to 1.0, and a rejection of
  that call is ignored.
\<close>

definition restore_after_error :: "world \<Rightarrow> env \<Rightarrow> env" where
  "restore_after_error w e = sleep 300 (snd (setZoom w 1 e))"

function captureWithZoom_from :: "world \<Rightarrow> real \<Rightarrow> nat \<Rightarrow> env \<Rightarrow> dataUrl option \<times> env" where
  "captureWithZoom_from w zoomLevel attempt e =
     (if attempt < MAX_RETRIES
      then (case try_capture w zoomLevel e of
              (Some d, e1) \<Rightarrow> (Some d, e1)
            | (None, e1) \<Rightarrow>
                (if attempt = MAX_RETRIES - 1
                 then captureVisibleTab w (restore_after_error w e1)
                 else captureWithZoom_from w zoomLevel (attempt + 1) (restore_after_error w e1)))
      else (None, e))"
  by pat_completeness auto
termination
  by (relation "measure (\<lambda>(w, z, attempt, e). MAX_RETRIES - attempt)") auto

declare captureWithZoom_from.simps [simp del]

definition captureWithZoom :: "world \<Rightarrow> real \<Rightarrow> env \<Rightarrow> dataUrl option \<times> env" where
  "captureWithZoom w zoomLevel e = captureWithZoom_from w zoomLevel 0 e"

subsection \<open>turnPage and waitForContentReady\<close>

datatype pageDirection = Left | Right
datatype direction = Prev | Next

text \<open>
  \<open>turnPage\<close>: the key-press message; when it rejects, the click message, whose rejection
  is only logged; then the stabilisation wait.
\<close>

definition turnPage :: "world \<Rightarrow> direction \<Rightarrow> int \<Rightarrow> env \<Rightarrow> env" where
  "turnPage w dir waitMs e =
     (let e1 = (if msgOk w (clock e) then tick e
                else (if msgOk w (clock (tick e)) then tick (tick e) else tick (tick e)))
      in sleep 300 e1)"

definition MAX_CHECKS :: nat where
  "MAX_CHECKS = 5"

declare MAX_CHECKS_def [simp]

definition CHECK_INTERVAL :: int where
  "CHECK_INTERVAL = 600"

declare CHECK_INTERVAL_def [simp]

function waitForContentReady_from :: "world \<Rightarrow> nat \<Rightarrow> env \<Rightarrow> env" where
  "waitForContentReady_from w i e =
     (if i < MAX_CHECKS
      then (case probe w (clock e) of
              Rejected \<Rightarrow> tick e
            | Response True \<Rightarrow> tick e
            | _ \<Rightarrow> waitForContentReady_from w (i + 1) (sleep CHECK_INTERVAL (tick e)))
      else e)"
  by pat_completeness auto
termination
  by (relation "measure (\<lambda>(w, i, e). MAX_CHECKS - i)") auto

declare waitForContentReady_from.simps [simp del]

definition waitForContentReady :: "world \<Rightarrow> int \<Rightarrow> env \<Rightarrow> env" where
  "waitForContentReady w delay e = waitForContentReady_from w 0 e"

subsection \<open>captureWithRetry\<close>

definition RETRY_WAIT :: int where
  "RETRY_WAIT = 1500"

declare RETRY_WAIT_def [simp]

definition sizeKB :: "dataUrl \<Rightarrow> real" where
  "sizeKB d = real (length d) * 3 / 4 / 1024"

text \<open>
  \<open>!dataUrl\<close> holds for \<open>null\<close> and for the empty string. After the third blank-looking
  capture the loop ends and one more \<open>captureWithZoom\<close> is returned as it is.
\<close>

function captureWithRetry_from :: "world \<Rightarrow> real \<Rightarrow> int \<Rightarrow> nat \<Rightarrow> env \<Rightarrow> dataUrl option \<times> env" where
  "captureWithRetry_from w zoomLevel delay attempt e =
     (if attempt < MAX_RETRIES
      then (case captureWithZoom w zoomLevel e of
              (None, e1) \<Rightarrow> (None, e1)
            | (Some d, e1) \<Rightarrow>
                (if d = [] then (None, e1)
                 else if sizeKB d > 30 then (Some d, e1)
                 else captureWithRetry_from w zoomLevel delay (attempt + 1)
                        (waitForContentReady w delay
                           (sleep (RETRY_WAIT * (int attempt + 1)) e1))))
      else captureWithZoom w zoomLevel e)"
  by pat_completeness auto
termination
  by (relation "measure (\<lambda>(w, z, delay, attempt, e). MAX_RETRIES - attempt)") auto

declare captureWithRetry_from.simps [simp del]

definition captureWithRetry :: "world \<Rightarrow> real \<Rightarrow> int \<Rightarrow> env \<Rightarrow> dataUrl option \<times> env" where
  "captureWithRetry w zoomLevel delay e = captureWithRetry_from w zoomLevel delay 0 e"

subsection \<open>captureState and the worker\<close>

record captureState =
  isRunning :: bool
  currentPage :: int
  startPage :: int
  endPage :: int
  totalPages :: int
  pageDirection :: pageDirection
  cropWidth :: int
  cropHeight :: int
  outputWidth :: int
  outputHeight :: int
  zoomLevel :: real
  delay :: int
  images :: "dataUrl list"
  tabId :: "nat option"
  windowId :: "nat option"

text \<open>
  The worker: \<open>captureState\<close>, the tab it drives, every message passed to
  \<open>chrome.runtime.sendMessage\<close> so far (in order), and whether the keep-alive alarm exists.
\<close>

record worker = captureState +
  browser :: env
  sent :: "message list"
  keepAlive :: bool

definition captureState_init :: "env \<Rightarrow> worker" where
  "captureState_init e =
     \<lparr>isRunning = False, currentPage = 0, startPage = 1, endPage = 10, totalPages = 0,
      pageDirection = Left, cropWidth = 0, cropHeight = 0, outputWidth = 0, outputHeight = 0,
      zoomLevel = 2, delay = 2000, images = [], tabId = None, windowId = None,
      browser = e, sent = [], keepAlive = False\<rparr>"

text \<open>
  None of \<open>turnPage\<close>, \<open>sleep\<close>, \<open>waitForContentReady\<close>, \<open>captureWithRetry\<close> and
  \<open>captureWithZoom\<close> reads or writes \<open>captureState\<close>; while the worker is suspended in
  them, the message listener can run. \<open>during w s e'\<close> is the worker after awaits that took
  the tab from \<open>browser s\<close> to \<open>e'\<close> when \<open>stopCapture\<close>, which clears \<open>isRunning\<close>, is the
  only message that changes \<open>captureState\<close> in that time: a session in which the user at most
  presses stop. The listener with all its messages, among them a second \<open>startCapture\<close>
  in the middle of a session, is \<open>during_inbox\<close> below; the two agree when stops are the
  only messages.
\<close>

definition during :: "world \<Rightarrow> worker \<Rightarrow> env \<Rightarrow> worker" where
  "during w s e' =
     s\<lparr>isRunning := isRunning s \<and> \<not> list_ex (stopAt w) [clock (browser s) ..< clock e'],
       browser := e'\<rparr>"

definition broadcast :: "message \<Rightarrow> worker \<Rightarrow> worker" where
  "broadcast m s = s\<lparr>sent := sent s @ [m]\<rparr>"

definition broadcastProgress :: "int \<Rightarrow> int \<Rightarrow> worker \<Rightarrow> worker" where
  "broadcastProgress captured tot s = broadcast (Progress captured tot) s"

definition startKeepAlive :: "worker \<Rightarrow> worker" where
  "startKeepAlive s = s\<lparr>keepAlive := True\<rparr>"

definition stopKeepAlive :: "worker \<Rightarrow> worker" where
  "stopKeepAlive s = s\<lparr>keepAlive := False\<rparr>"

subsection \<open>generatePdf and handlePdfReady\<close>

definition BATCH_SIZE :: nat where
  "BATCH_SIZE = 20"

declare BATCH_SIZE_def [simp]

text \<open>\<open>xs.slice(a, b)\<close> for \<open>0 \<le> a \<le> b\<close>.\<close>

definition slice :: "'a list \<Rightarrow> nat \<Rightarrow> nat \<Rightarrow> 'a list" where
  "slice xs a b = take (b - a) (drop a xs)"

function sendBatches :: "dataUrl list \<Rightarrow> nat \<Rightarrow> message list" where
  "sendBatches imgs i =
     (if i < length imgs
      then GeneratePdfBatch (i div BATCH_SIZE) (slice imgs i (i + BATCH_SIZE))
             (i + BATCH_SIZE \<ge> length imgs)
           # sendBatches imgs (i + BATCH_SIZE)
      else [])"
  by pat_completeness auto
termination
  by (relation "measure (\<lambda>(imgs, i). length imgs - i)") auto

declare sendBatches.simps [simp del]

definition generatePdf_messages :: "dataUrl list \<Rightarrow> int \<Rightarrow> int \<Rightarrow> int \<Rightarrow> int \<Rightarrow> message list" where
  "generatePdf_messages imgs cw ch ow oh =
     (if length imgs \<le> BATCH_SIZE
      then [GeneratePdf imgs cw ch ow oh]
      else GeneratePdfBatchInit (nat \<lceil>real (length imgs) / real BATCH_SIZE\<rceil>) (length imgs)
             cw ch ow oh
           # sendBatches imgs 0)"

text \<open>
  The two awaits of \<open>setupOffscreenDocument\<close> are one step; when it rejects, the \<open>catch\<close>
  broadcasts \<open>captureError\<close>.
\<close>

definition generatePdf :: "world \<Rightarrow> worker \<Rightarrow> worker" where
  "generatePdf w s =
     (if length (images s) = 0 then s
      else
        (let ok = offscreenOk w (clock (browser s));
             s1 = during w s (tick (browser s))
         in if ok
            then s1\<lparr>sent := sent s1 @ generatePdf_messages (images s1) (cropWidth s1)
                                       (cropHeight s1) (outputWidth s1) (outputHeight s1)\<rparr>
            else broadcast (CaptureError PdfSetupFailed) s1))"

definition handlePdfReady :: "world \<Rightarrow> worker \<Rightarrow> worker" where
  "handlePdfReady w s =
     (let ok = downloadOk w (clock (browser s));
          s1 = during w s (tick (browser s))
      in if ok
         then (let s2 = broadcast (DownloadReady (length (images s1))) s1;
                   s3 = s2\<lparr>images := []\<rparr>
               in during w s3 (tick (browser s3)))
         else broadcast (CaptureError DownloadFailed) s1)"

subsection \<open>captureLoop\<close>

text \<open>
  \<open>captureLoop\<close> copies \<open>startPage\<close>, \<open>endPage\<close>, \<open>zoomLevel\<close>, \<open>delay\<close> and the direction
  into constants before it starts; they are the primed parameters below. One pass of the
  main loop either returns from \<open>captureLoop\<close>, leaves the loop by \<open>break\<close>, or goes on;
  \<open>Continue r s\<close> records what \<open>captureWithRetry\<close> returned in that pass.
\<close>

datatype flow = Returned worker | Broke worker | Continue "dataUrl option" worker

function navigate_for :: "world \<Rightarrow> int \<Rightarrow> int \<Rightarrow> direction \<Rightarrow> int \<Rightarrow> worker \<Rightarrow> worker" where
  "navigate_for w startPage' delay' nextDirection i s =
     (if i < startPage'
      then (if \<not> isRunning s then s
            else navigate_for w startPage' delay' nextDirection (i + 1)
                   (during w s (turnPage w nextDirection delay' (browser s))))
      else s)"
  by pat_completeness auto
termination
  by (relation "measure (\<lambda>(w, startPage', delay', d, i, s). nat (startPage' - i))") auto

declare navigate_for.simps [simp del]

definition captureLoop_body ::
  "world \<Rightarrow> int \<Rightarrow> real \<Rightarrow> int \<Rightarrow> direction \<Rightarrow> int \<Rightarrow> worker \<Rightarrow> flow" where
  "captureLoop_body w startPage' zoomLevel' delay' nextDirection page s =
     (if \<not> isRunning s
      then (let s1 = stopKeepAlive (broadcast CaptureStopped s)
            in Returned (if length (images s1) > 0 then generatePdf w s1 else s1))
      else
        (let s1 = s\<lparr>currentPage := page\<rparr>;
             s2 = (if page > startPage'
                   then during w s1 (turnPage w nextDirection delay' (browser s1))
                   else during w s1 (sleep (min delay' 1000) (browser s1)))
         in if \<not> isRunning s2 then Broke s2
            else
              (let s3 = during w s2 (waitForContentReady w delay' (browser s2));
                   (r, e4) = captureWithRetry w zoomLevel' delay' (browser s3);
                   s4 = during w s3 e4;
                   s5 = (case r of
                           None \<Rightarrow> s4
                         | Some d \<Rightarrow> if d = [] then s4 else s4\<lparr>images := images s4 @ [d]\<rparr>);
                   captured = page - startPage' + 1
               in Continue r (broadcastProgress captured (totalPages s5) s5))))"

function captureLoop_for ::
  "world \<Rightarrow> int \<Rightarrow> int \<Rightarrow> real \<Rightarrow> int \<Rightarrow> direction \<Rightarrow> int \<Rightarrow> worker \<Rightarrow> bool \<times> worker" where
  "captureLoop_for w startPage' endPage' zoomLevel' delay' nextDirection page s =
     (if page \<le> endPage'
      then (case captureLoop_body w startPage' zoomLevel' delay' nextDirection page s of
              Returned s' \<Rightarrow> (True, s')
            | Broke s' \<Rightarrow> (False, s')
            | Continue r s' \<Rightarrow>
                captureLoop_for w startPage' endPage' zoomLevel' delay' nextDirection (page + 1) s')
      else (False, s))"
  by pat_completeness auto
termination
  by (relation "measure (\<lambda>(w, sp, ep, z, dl, d, page, s). nat (ep + 1 - page))") auto

declare captureLoop_for.simps [simp del]

text \<open>The code after the main loop; it runs unless the loop returned.\<close>

definition captureLoop_finish :: "world \<Rightarrow> worker \<Rightarrow> worker" where
  "captureLoop_finish w s =
     (if \<not> isRunning s \<and> length (images s) = 0 then stopKeepAlive s
      else generatePdf w (broadcast CaptureComplete (stopKeepAlive (s\<lparr>isRunning := False\<rparr>))))"

definition captureLoop :: "world \<Rightarrow> worker \<Rightarrow> worker" where
  "captureLoop w s =
     (let startPage' = startPage s; endPage' = endPage s;
          zoomLevel' = zoomLevel s; delay' = delay s;
          nextDirection = (if pageDirection s = Left then Prev else Next);
          s1 = (if startPage' > 1
                then navigate_for w startPage' delay' nextDirection 1
                       (broadcastProgress 0 (totalPages s) s)
                else s)
      in case captureLoop_for w startPage' endPage' zoomLevel' delay' nextDirection startPage' s1 of
           (True, s2) \<Rightarrow> s2
         | (False, s2) \<Rightarrow> captureLoop_finish w s2)"

text \<open>
  The workers at the head of each pass of the main loop and the worker that leaves it,
  in order: every value \<open>captureState\<close> takes at a loop boundary.
\<close>

function captureLoop_states ::
  "world \<Rightarrow> int \<Rightarrow> int \<Rightarrow> real \<Rightarrow> int \<Rightarrow> direction \<Rightarrow> int \<Rightarrow> worker \<Rightarrow> worker list" where
  "captureLoop_states w startPage' endPage' zoomLevel' delay' nextDirection page s =
     (if page \<le> endPage'
      then s # (case captureLoop_body w startPage' zoomLevel' delay' nextDirection page s of
              Returned s' \<Rightarrow> [s']
            | Broke s' \<Rightarrow> [s']
            | Continue r s' \<Rightarrow>
                captureLoop_states w startPage' endPage' zoomLevel' delay' nextDirection (page + 1) s')
      else [s])"
  by pat_completeness auto
termination
  by (relation "measure (\<lambda>(w, sp, ep, z, dl, d, page, s). nat (ep + 1 - page))") auto

declare captureLoop_states.simps [simp del]

subsection \<open>handleStartCapture\<close>

text \<open>
  The \<open>startCapture\<close> message. The popup sends no crop or output size, so these fields can
  be absent; \<open>x || 0\<close> then gives 0, and \<open>msg.pageDirection || 'left'\<close> gives \<open>Left\<close>.
\<close>

record startCapture =
  msg_startPage :: int
  msg_endPage :: int
  msg_pageDirection :: "pageDirection option"
  msg_cropWidth :: "int option"
  msg_cropHeight :: "int option"
  msg_outputWidth :: "int option"
  msg_outputHeight :: "int option"
  msg_zoomLevel :: real
  msg_delay :: int

record chromeTab =
  tab_url :: string
  tab_id :: nat
  tab_windowId :: nat

datatype response = Ok | Error reason

definition or_zero :: "int option \<Rightarrow> int" where
  "or_zero x = (case x of None \<Rightarrow> 0 | Some v \<Rightarrow> v)"

text \<open>\<open>s.includes(t)\<close>\<close>

fun str_includes :: "string \<Rightarrow> string \<Rightarrow> bool" where
  "str_includes [] t = (t = [])"
| "str_includes (c # cs) t = (take (length t) (c # cs) = t \<or> str_includes cs t)"

text \<open>
  \<open>ensureContentScript\<close>: \<open>False\<close> when \<open>executeScript\<close> rejects (the exception reaches the
  \<open>catch\<close> of \<open>handleStartCapture\<close>).
\<close>

definition ensureContentScript :: "world \<Rightarrow> env \<Rightarrow> bool \<times> env" where
  "ensureContentScript w e =
     (case probe w (clock e) of
        Rejected \<Rightarrow>
          (let e1 = tick e
           in if injectOk w (clock e1) then (True, sleep 300 (tick e1)) else (False, tick e1))
      | _ \<Rightarrow> (True, tick e))"

text \<open>
  The result lists the calls of \<open>sendResponse\<close> in order. \<open>active\<close> is the first tab found
  by \<open>chrome.tabs.query\<close>, if any.
\<close>

definition handleStartCapture ::
  "world \<Rightarrow> chromeTab option \<Rightarrow> startCapture \<Rightarrow> worker \<Rightarrow> response list \<times> worker" where
  "handleStartCapture w active msg s =
     (if isRunning s then ([Error AlreadyRunning], s)
      else
        (let s0 = during w s (tick (browser s))
         in case active of
              None \<Rightarrow> ([Error NoActiveTab], s0)
            | Some tab \<Rightarrow>
                if \<not> str_includes (tab_url tab) ''read.amazon.''
                then ([Error NotKindlePage], s0)
                else
                  (let s1 = s0\<lparr>isRunning := True,
                                currentPage := msg_startPage msg,
                                startPage := msg_startPage msg,
                                endPage := msg_endPage msg,
                                totalPages := msg_endPage msg - msg_startPage msg + 1,
                                pageDirection :=
                                  (case msg_pageDirection msg of None \<Rightarrow> Left | Some d \<Rightarrow> d),
                                cropWidth := or_zero (msg_cropWidth msg),
                                cropHeight := or_zero (msg_cropHeight msg),
                                outputWidth := or_zero (msg_outputWidth msg),
                                outputHeight := or_zero (msg_outputHeight msg),
                                zoomLevel := msg_zoomLevel msg,
                                delay := msg_delay msg,
                                images := [],
                                tabId := Some (tab_id tab),
                                windowId := Some (tab_windowId tab)\<rparr>
                   in case ensureContentScript w (browser s1) of
                        (False, e2) \<Rightarrow>
                          ([Ok, Error StartFailed],
                           stopKeepAlive ((during w s1 e2)\<lparr>isRunning := False\<rparr>))
                      | (True, e2) \<Rightarrow>
                          ([Ok], captureLoop w (startKeepAlive (during w s1 e2))))))"

subsection \<open>The listener while the loop is suspended\<close>

text \<open>
  The four messages the listener of the service worker reacts to. \<open>OnStartCapture msg active\<close>
  carries the first tab that \<open>chrome.tabs.query\<close> finds when the message is handled.
\<close>

datatype incoming =
    OnStartCapture startCapture "chromeTab option"
  | OnStopCapture
  | OnGetStatus
  | OnPdfReady

text \<open>
  \<open>handleStartCapture\<close> up to its call \<open>sendResponse({ ok: true })\<close>: the guard on
  \<open>isRunning\<close>, the tab checks and the assignments to \<open>captureState\<close>. What follows in that
  activation (\<open>ensureContentScript\<close>, \<open>startKeepAlive\<close> and its own \<open>captureLoop\<close>, which for
  a start page \<open>n > 1\<close> begins with \<open>n - 1\<close> page turns that write nothing to
  \<open>captureState\<close>) is not followed here.
\<close>

definition handleStartCapture_begin :: "chromeTab option \<Rightarrow> startCapture \<Rightarrow> worker \<Rightarrow> worker" where
  "handleStartCapture_begin active msg s =
     (if isRunning s then s
      else
        (case active of
           None \<Rightarrow> s
         | Some tab \<Rightarrow>
             if \<not> str_includes (tab_url tab) ''read.amazon.'' then s
             else s\<lparr>isRunning := True,
                    currentPage := msg_startPage msg,
                    startPage := msg_startPage msg,
                    endPage := msg_endPage msg,
                    totalPages := msg_endPage msg - msg_startPage msg + 1,
                    pageDirection :=
                      (case msg_pageDirection msg of None \<Rightarrow> Left | Some d \<Rightarrow> d),
                    cropWidth := or_zero (msg_cropWidth msg),
                    cropHeight := or_zero (msg_cropHeight msg),
                    outputWidth := or_zero (msg_outputWidth msg),
                    outputHeight := or_zero (msg_outputHeight msg),
                    zoomLevel := msg_zoomLevel msg,
                    delay := msg_delay msg,
                    images := [],
                    tabId := Some (tab_id tab),
                    windowId := Some (tab_windowId tab)\<rparr>))"

text \<open>
  The effect on the worker of a message handled at step \<open>t\<close>, while a loop is suspended:
  \<open>stopCapture\<close> clears \<open>isRunning\<close>, \<open>getStatus\<close> only reads, \<open>startCapture\<close> is
  \<open>handleStartCapture_begin\<close> and \<open>pdfReady\<close> is \<open>handlePdfReady\<close>. The awaits inside the two
  handlers (\<open>chrome.tabs.query\<close>; \<open>downloads.download\<close> and \<open>offscreen.closeDocument\<close>)
  resolve within the step, that is, before the await of the suspended loop does.
\<close>

fun listener :: "world \<Rightarrow> nat \<Rightarrow> incoming \<Rightarrow> worker \<Rightarrow> worker" where
  "listener w t (OnStartCapture msg active) s = handleStartCapture_begin active msg s"
| "listener w t OnStopCapture s = s\<lparr>isRunning := False\<rparr>"
| "listener w t OnGetStatus s = s"
| "listener w t OnPdfReady s =
     (if downloadOk w t
      then (broadcast (DownloadReady (length (images s))) s)\<lparr>images := []\<rparr>
      else broadcast (CaptureError DownloadFailed) s)"

text \<open>
  \<open>inbox t\<close> lists the messages handled during step \<open>t\<close>, in order. \<open>during_inbox\<close> is
  \<open>during\<close> with these messages in place of the stops of the world, and \<open>stops_of w\<close> is the
  inbox that holds exactly those stops.
\<close>

definition during_inbox :: "(nat \<Rightarrow> incoming list) \<Rightarrow> world \<Rightarrow> worker \<Rightarrow> env \<Rightarrow> worker" where
  "during_inbox inbox w s e' =
     (fold (\<lambda>t. fold (listener w t) (inbox t)) [clock (browser s) ..< clock e'] s)
       \<lparr>browser := e'\<rparr>"

definition stops_of :: "world \<Rightarrow> nat \<Rightarrow> incoming list" where
  "stops_of w t = (if stopAt w t then [OnStopCapture] else [])"

text \<open>
  \<open>generatePdf\<close> and \<open>captureLoop\<close> once more, with \<open>during_inbox\<close> at every await.
\<close>

definition generatePdf_inbox :: "(nat \<Rightarrow> incoming list) \<Rightarrow> world \<Rightarrow> worker \<Rightarrow> worker" where
  "generatePdf_inbox inbox w s =
     (if length (images s) = 0 then s
      else
        (let ok = offscreenOk w (clock (browser s));
             s1 = during_inbox inbox w s (tick (browser s))
         in if ok
            then s1\<lparr>sent := sent s1 @ generatePdf_messages (images s1) (cropWidth s1)
                                       (cropHeight s1) (outputWidth s1) (outputHeight s1)\<rparr>
            else broadcast (CaptureError PdfSetupFailed) s1))"

function navigate_for_inbox ::
  "(nat \<Rightarrow> incoming list) \<Rightarrow> world \<Rightarrow> int \<Rightarrow> int \<Rightarrow> direction \<Rightarrow> int \<Rightarrow> worker \<Rightarrow> worker" where
  "navigate_for_inbox inbox w startPage' delay' nextDirection i s =
     (if i < startPage'
      then (if \<not> isRunning s then s
            else navigate_for_inbox inbox w startPage' delay' nextDirection (i + 1)
                   (during_inbox inbox w s (turnPage w nextDirection delay' (browser s))))
      else s)"
  by pat_completeness auto
termination
  by (relation "measure (\<lambda>(inbox, w, startPage', delay', d, i, s). nat (startPage' - i))") auto

declare navigate_for_inbox.simps [simp del]

definition captureLoop_body_inbox ::
  "(nat \<Rightarrow> incoming list) \<Rightarrow> world \<Rightarrow> int \<Rightarrow> real \<Rightarrow> int \<Rightarrow> direction \<Rightarrow> int \<Rightarrow> worker \<Rightarrow> flow" where
  "captureLoop_body_inbox inbox w startPage' zoomLevel' delay' nextDirection page s =
     (if \<not> isRunning s
      then (let s1 = stopKeepAlive (broadcast CaptureStopped s)
            in Returned (if length (images s1) > 0 then generatePdf_inbox inbox w s1 else s1))
      else
        (let s1 = s\<lparr>currentPage := page\<rparr>;
             s2 = (if page > startPage'
                   then during_inbox inbox w s1 (turnPage w nextDirection delay' (browser s1))
                   else during_inbox inbox w s1 (sleep (min delay' 1000) (browser s1)))
         in if \<not> isRunning s2 then Broke s2
            else
              (let s3 = during_inbox inbox w s2 (waitForContentReady w delay' (browser s2));
                   (r, e4) = captureWithRetry w zoomLevel' delay' (browser s3);
                   s4 = during_inbox inbox w s3 e4;
                   s5 = (case r of
                           None \<Rightarrow> s4
                         | Some d \<Rightarrow> if d = [] then s4 else s4\<lparr>images := images s4 @ [d]\<rparr>);
                   captured = page - startPage' + 1
               in Continue r (broadcastProgress captured (totalPages s5) s5))))"

function captureLoop_for_inbox ::
  "(nat \<Rightarrow> incoming list) \<Rightarrow> world \<Rightarrow> int \<Rightarrow> int \<Rightarrow> real \<Rightarrow> int \<Rightarrow> direction \<Rightarrow> int \<Rightarrow> worker
   \<Rightarrow> bool \<times> worker" where
  "captureLoop_for_inbox inbox w startPage' endPage' zoomLevel' delay' nextDirection page s =
     (if page \<le> endPage'
      then (case captureLoop_body_inbox inbox w startPage' zoomLevel' delay' nextDirection page s of
              Returned s' \<Rightarrow> (True, s')
            | Broke s' \<Rightarrow> (False, s')
            | Continue r s' \<Rightarrow>
                captureLoop_for_inbox inbox w startPage' endPage' zoomLevel' delay' nextDirection
                  (page + 1) s')
      else (False, s))"
  by pat_completeness auto
termination
  by (relation "measure (\<lambda>(inbox, w, sp, ep, z, dl, d, page, s). nat (ep + 1 - page))") auto

declare captureLoop_for_inbox.simps [simp del]

definition captureLoop_finish_inbox :: "(nat \<Rightarrow> incoming list) \<Rightarrow> world \<Rightarrow> worker \<Rightarrow> worker" where
  "captureLoop_finish_inbox inbox w s =
     (if \<not> isRunning s \<and> length (images s) = 0 then stopKeepAlive s
      else generatePdf_inbox inbox w
             (broadcast CaptureComplete (stopKeepAlive (s\<lparr>isRunning := False\<rparr>))))"

definition captureLoop_inbox :: "(nat \<Rightarrow> incoming list) \<Rightarrow> world \<Rightarrow> worker \<Rightarrow> worker" where
  "captureLoop_inbox inbox w s =
     (let startPage' = startPage s; endPage' = endPage s;
          zoomLevel' = zoomLevel s; delay' = delay s;
          nextDirection = (if pageDirection s = Left then Prev else Next);
          s1 = (if startPage' > 1
                then navigate_for_inbox inbox w startPage' delay' nextDirection 1
                       (broadcastProgress 0 (totalPages s) s)
                else s)
      in case captureLoop_for_inbox inbox w startPage' endPage' zoomLevel' delay' nextDirection
                startPage' s1 of
           (True, s2) \<Rightarrow> s2
         | (False, s2) \<Rightarrow> captureLoop_finish_inbox inbox w s2)"

section \<open>Popup (popup/popup.js)\<close>

text \<open>
  The values read from the form by the click handler of the start button: \<open>parseInt\<close>
  gives a number or NaN (\<open>None\<close>); the zoom level comes from a selection list.
\<close>

record form =
  pageDirection_value :: pageDirection
  startPage_value :: "int option"
  endPage_value :: "int option"
  zoomLevel_value :: real
  delay_value :: "int option"

text \<open>The handler shows an error (\<open>Inl\<close>) or sends the \<open>startCapture\<close> message (\<open>Inr\<close>).\<close>

definition startBtn_click :: "form \<Rightarrow> reason + startCapture" where
  "startBtn_click f =
     (case (startPage_value f, endPage_value f) of
        (Some startPage', Some endPage') \<Rightarrow>
          if startPage' < 1 \<or> endPage' < 1 then Inl BadPageNumber
          else if startPage' > endPage' then Inl StartAfterEnd
          else (case delay_value f of
                  None \<Rightarrow> Inl DelayTooShort
                | Some delay' \<Rightarrow>
                    if delay' < 500 then Inl DelayTooShort
                    else Inr \<lparr>msg_startPage = startPage', msg_endPage = endPage',
                              msg_pageDirection = Some (pageDirection_value f),
                              msg_cropWidth = None, msg_cropHeight = None,
                              msg_outputWidth = None, msg_outputHeight = None,
                              msg_zoomLevel = zoomLevel_value f, msg_delay = delay'\<rparr>)
      | _ \<Rightarrow> Inl BadPageNumber)"

section \<open>Auxiliary notions\<close>

text \<open>The \<open>generatePdfBatchInit\<close> messages.\<close>

fun is_init :: "message \<Rightarrow> bool" where
  "is_init (GeneratePdfBatchInit _ _ _ _ _ _) = True"
| "is_init _ = False"

text \<open>The pictures placed on the pages of a finished document, in page order.\<close>

definition pdf_contents :: "message \<Rightarrow> picture list" where
  "pdf_contents m = (case m of PdfReady ps \<Rightarrow> map content ps | _ \<Rightarrow> [])"

text \<open>Pages whose pass through the main loop appended no frame, in order.\<close>

function captureLoop_missing ::
  "world \<Rightarrow> int \<Rightarrow> int \<Rightarrow> real \<Rightarrow> int \<Rightarrow> direction \<Rightarrow> int \<Rightarrow> worker \<Rightarrow> int list" where
  "captureLoop_missing w startPage' endPage' zoomLevel' delay' nextDirection page s =
     (if page \<le> endPage'
      then (case captureLoop_body w startPage' zoomLevel' delay' nextDirection page s of
              Returned s' \<Rightarrow> []
            | Broke s' \<Rightarrow> []
            | Continue r s' \<Rightarrow>
                (if r = None \<or> r = Some [] then [page] else [])
                @ captureLoop_missing w startPage' endPage' zoomLevel' delay' nextDirection
                    (page + 1) s')
      else [])"
  by pat_completeness auto
termination
  by (relation "measure (\<lambda>(w, sp, ep, z, dl, d, page, s). nat (ep + 1 - page))") auto

declare captureLoop_missing.simps [simp del]

text \<open>
  A list of \<open>setZoom\<close> calls in which every call either asks for 1.0 or is directly
  followed by a call that asks for 1.0.
\<close>

fun restores_each :: "(real \<times> bool) list \<Rightarrow> bool" where
  "restores_each [] = True"
| "restores_each [c] = (fst c = 1)"
| "restores_each (c # d # cs) = ((fst c = 1 \<or> fst d = 1) \<and> restores_each (d # cs))"

text \<open>
  \<open>restored e e'\<close>: between \<open>e\<close> and \<open>e'\<close> at least one \<open>setZoom\<close> call was made, every
  zoom-in was directly followed by a call for 1.0, and if the last call resolved the tab is
  at 1.0 in \<open>e'\<close>.
\<close>

definition restored :: "env \<Rightarrow> env \<Rightarrow> bool" where
  "restored e e' \<longleftrightarrow>
     (\<exists>cs. zoomCalls e' = zoomCalls e @ cs \<and> cs \<noteq> [] \<and> restores_each cs
           \<and> (snd (last cs) \<longrightarrow> tabZoom e' = 1))"

text \<open>The two broadcasts with which \<open>captureLoop\<close> ends a session.\<close>

fun is_end :: "message \<Rightarrow> bool" where
  "is_end CaptureStopped = True"
| "is_end CaptureComplete = True"
| "is_end _ = False"

section \<open>Concrete inputs\<close>

text \<open>A browser in which every picture decodes to 1280 by 800 pixels.\<close>

definition dec_1280 :: decoder where
  "dec_1280 p = Some (1280, 800)"

text \<open>A decoded screenshot of 1000 by 500 pixels.\<close>

definition shot1000 :: image where
  "shot1000 =
     \<lparr>src = Orig ''png'', naturalWidth = 1000, naturalHeight = 500,
      elemWidth = 1000, elemHeight = 500\<rparr>"

text \<open>A data URL of \<open>n\<close> characters.\<close>

definition frame :: "nat \<Rightarrow> dataUrl" where
  "frame n = replicate n (CHR ''A'')"

text \<open>Forty-one distinct frames: three batches of 20, 20 and 1.\<close>

definition frames41 :: "dataUrl list" where
  "frames41 = map (\<lambda>n. replicate (Suc n) (CHR ''x'')) [0..<41]"

text \<open>
  A browser in which every call resolves, the content script answers at once, every
  capture is a frame of 50000 characters and nobody presses stop; a tab at clock 0 and
  zoom 1.0; a Kindle tab; a worker whose state is as \<open>handleStartCapture\<close> sets it for
  pages 1 to 5; and a \<open>startCapture\<close> message for given pages and delay.
\<close>

definition w_fine :: world where
  "w_fine =
     \<lparr>stopAt = (\<lambda>t. False), zoomOk = (\<lambda>t. True), shot = (\<lambda>t. Some (frame 50000)),
      msgOk = (\<lambda>t. True), probe = (\<lambda>t. Response True), injectOk = (\<lambda>t. True),
      offscreenOk = (\<lambda>t. True), downloadOk = (\<lambda>t. True)\<rparr>"

definition e0 :: env where
  "e0 = \<lparr>clock = 0, tabZoom = 1, zoomCalls = []\<rparr>"

definition kindle_tab :: chromeTab where
  "kindle_tab = \<lparr>tab_url = ''https://read.amazon.co.jp/'', tab_id = 7, tab_windowId = 1\<rparr>"

definition session_1_5 :: worker where
  "session_1_5 =
     (captureState_init e0)
       \<lparr>isRunning := True, currentPage := 1, startPage := 1, endPage := 5, totalPages := 5,
        tabId := Some 7, windowId := Some 1, keepAlive := True\<rparr>"

definition start_msg :: "int \<Rightarrow> int \<Rightarrow> int \<Rightarrow> startCapture" where
  "start_msg a b dl =
     \<lparr>msg_startPage = a, msg_endPage = b, msg_pageDirection = Some Left,
      msg_cropWidth = None, msg_cropHeight = None, msg_outputWidth = None,
      msg_outputHeight = None, msg_zoomLevel = 2, msg_delay = dl\<rparr>"

text \<open>
  A PNG data URL with \<open>4 * k\<close> characters of base64 text. \<open>png_frame 3000\<close> has 12022
  characters (about 8.8 KB), \<open>png_frame 40000\<close> has 160022 (about 117 KB).
\<close>

definition png_frame :: "nat \<Rightarrow> dataUrl" where
  "png_frame k = png_prefix @ replicate (4 * k) (CHR ''A'')"

text \<open>
  Three browsers like \<open>w_fine\<close> whose captures are PNG data URLs: one in which every capture
  is small, one in which only the first capture is small, and one in which every capture is
  large.
\<close>

definition w_small :: world where
  "w_small = w_fine\<lparr>shot := (\<lambda>t. Some (png_frame 3000))\<rparr>"

definition w_small_first :: world where
  "w_small_first =
     w_fine\<lparr>shot := (\<lambda>t. if t = 2 then Some (png_frame 3000) else Some (png_frame 40000))\<rparr>"

definition w_png :: world where
  "w_png = w_fine\<lparr>shot := (\<lambda>t. Some (png_frame 40000))\<rparr>"

text \<open>
  The user presses stop and then start, for page 50 alone, while the loop is suspended at
  step 15; and nobody sends anything.
\<close>

definition restart_inbox :: "nat \<Rightarrow> incoming list" where
  "restart_inbox t =
     (if t = 15 then [OnStopCapture, OnStartCapture (start_msg 50 50 2000) (Some kindle_tab)]
      else [])"

definition empty_inbox :: "nat \<Rightarrow> incoming list" where
  "empty_inbox t = []"

text \<open>What the click handler reads from the form, and a tab that is not a Kindle page.\<close>

definition popup_form :: "int option \<Rightarrow> int option \<Rightarrow> int option \<Rightarrow> form" where
  "popup_form a b d =
     \<lparr>pageDirection_value = Left, startPage_value = a, endPage_value = b,
      zoomLevel_value = 2, delay_value = d\<rparr>"


section \<open>Evaluation on concrete inputs\<close>

lemma frame_simps [simp]:
  "length (frame n) = n" "frame n = [] \<longleftrightarrow> n = 0" "frame m = frame n \<longleftrightarrow> m = n"
  by (simp_all add: frame_def)

lemma png_frame_simps [simp]:
  "length (png_frame k) = 22 + 4 * k" "png_frame k \<noteq> []" "png_dataUrl (png_frame k)"
  "png_frame j = png_frame k \<longleftrightarrow> j = k"
  by (simp_all add: png_frame_def png_dataUrl_def) (simp_all add: png_prefix_def)

text \<open>Unfolding these evaluates the worker on a concrete browser.\<close>

lemmas evals =
  captureLoop_def captureLoop_for.simps captureLoop_body_def captureLoop_finish_def
  navigate_for.simps generatePdf_def generatePdf_messages_def during_def broadcast_def
  broadcastProgress_def stopKeepAlive_def startKeepAlive_def turnPage_def sleep_def tick_def
  waitForContentReady_def waitForContentReady_from.simps captureWithRetry_def
  captureWithRetry_from.simps captureWithZoom_def captureWithZoom_from.simps try_capture_def
  restore_after_error_def setZoom_def captureVisibleTab_def sizeKB_def captureState_init_def
  handleStartCapture_def ensureContentScript_def or_zero_def
  w_fine_def e0_def session_1_5_def kindle_tab_def start_msg_def Let_def

lemmas evals_inbox =
  captureLoop_inbox_def captureLoop_for_inbox.simps captureLoop_body_inbox_def
  captureLoop_finish_inbox_def navigate_for_inbox.simps generatePdf_inbox_def during_inbox_def
  handleStartCapture_begin_def restart_inbox_def empty_inbox_def w_png_def

section \<open>Offscreen document: batches without an init message\<close>

lemma onMessage_no_init:
  assumes "\<not> is_init m" "totalBatches s = 0" "batchedImages s = []"
  shows "totalBatches (fst (onMessage s m)) = 0 \<and> batchedImages (fst (onMessage s m)) = []"
  using assms by (cases m) (simp_all add: Let_def)

lemma deliver_no_init:
  assumes "list_all (\<lambda>m. \<not> is_init m) ms" "totalBatches s = 0" "batchedImages s = []"
  shows "totalBatches (fst (deliver s ms)) = 0 \<and> batchedImages (fst (deliver s ms)) = []"
  using assms
proof (induction ms arbitrary: s)
  case Nil
  then show ?case by simp
next
  case (Cons m ms)
  have inv: "totalBatches (fst (onMessage s m)) = 0 \<and> batchedImages (fst (onMessage s m)) = []"
    using Cons.prems by (intro onMessage_no_init) simp_all
  have "list_all (\<lambda>m. \<not> is_init m) ms"
    using Cons.prems by simp
  from Cons.IH[OF this] inv show ?case
    by (simp add: split_beta Let_def)
qed

text \<open>
  C10. As long as no \<open>generatePdfBatchInit\<close> has arrived in the lifetime of the offscreen
  document, \<open>totalBatches\<close> is still 0, so a \<open>generatePdfBatch\<close> message satisfies
  \<open>receivedBatches \<ge> totalBatches\<close> at once: the listener calls \<open>buildPdf\<close> exactly once,
  with the frames of that batch alone, whatever \<open>isLast\<close> and \<open>batchIndex\<close> are, and
  empties \<open>batchedImages\<close>.
\<close>

theorem batch_without_init_builds_at_once:
  assumes "list_all (\<lambda>m. \<not> is_init m) ms"
  shows "totalBatches (fst (deliver offscreen_init ms)) = 0
       \<and> totalBatches (fst (onMessage (fst (deliver offscreen_init ms))
                              (GeneratePdfBatch batchIndex imgs isLast)))
          \<le> receivedBatches (fst (onMessage (fst (deliver offscreen_init ms))
                                    (GeneratePdfBatch batchIndex imgs isLast)))
       \<and> map callImages
           (snd (onMessage (fst (deliver offscreen_init ms))
                   (GeneratePdfBatch batchIndex imgs isLast))) = [imgs]
       \<and> batchedImages
           (fst (onMessage (fst (deliver offscreen_init ms))
                   (GeneratePdfBatch batchIndex imgs isLast))) = []"
proof -
  have "totalBatches (fst (deliver offscreen_init ms)) = 0
      \<and> batchedImages (fst (deliver offscreen_init ms)) = []"
    using assms by (intro deliver_no_init) (simp_all add: offscreen_init_def)
  then show ?thesis
    by (simp add: Let_def buildPdf_call_def)
qed

theorem batch_without_init_builds_at_once_witness:
  "list_all (\<lambda>m. \<not> is_init m) [GeneratePdf [''a''] 0 0 0 0, GeneratePdfBatch 3 [''b''] False]
   \<and> map callImages
       (snd (onMessage
               (fst (deliver offscreen_init
                       [GeneratePdf [''a''] 0 0 0 0, GeneratePdfBatch 3 [''b''] False]))
               (GeneratePdfBatch 0 [''c''] False))) = [[''c'']]"
proof -
  have h: "list_all (\<lambda>m. \<not> is_init m)
             [GeneratePdf [''a''] 0 0 0 0, GeneratePdfBatch 3 [''b''] False]"
    by simp
  from batch_without_init_builds_at_once[OF h, of 0 "[''c'']" False] h
  show ?thesis by blast
qed

section \<open>Offscreen document: crop and resize never enlarge\<close>

lemma Math_round_le: "x < real n \<Longrightarrow> Math_round x \<le> int n"
  unfolding Math_round_def by linarith

lemma scaled_less: "0 < n \<Longrightarrow> c < 1 \<Longrightarrow> real n * c < real n"
  by simp

text \<open>
  C7. \<open>cropImage\<close> returns a width and a height that are at most those of the source image,
  for every image and every crop size. For every image of positive size and every output
  size, \<open>resizeImage\<close> returns a width and a height that are at most those of the source,
  and when the computed scale is at least 1 it returns the original unchanged.
\<close>

theorem crop_resize_never_enlarge:
  "width (cropImage img cw ch) \<le> int (naturalWidth img)
   \<and> height (cropImage img cw ch) \<le> int (naturalHeight img)
   \<and> (0 < srcW_of img \<and> 0 < srcH_of img \<longrightarrow>
        width (resizeImage img ow oh) \<le> int (srcW_of img)
      \<and> height (resizeImage img ow oh) \<le> int (srcH_of img)
      \<and> (1 \<le> resize_scale img ow oh \<longrightarrow>
           resizeImage img ow oh =
             \<lparr>dataUrl = src img, width = int (srcW_of img), height = int (srcH_of img)\<rparr>))"
proof -
  have c1: "width (cropImage img cw ch) \<le> int (naturalWidth img)"
    by (simp add: cropImage_def Let_def)
  have c2: "height (cropImage img cw ch) \<le> int (naturalHeight img)"
    by (simp add: cropImage_def Let_def)
  have r1: "width (resizeImage img ow oh) \<le> int (srcW_of img)" if "0 < srcW_of img"
    using that by (simp add: resizeImage_def Let_def Math_round_le scaled_less not_le)
  have r2: "height (resizeImage img ow oh) \<le> int (srcH_of img)" if "0 < srcH_of img"
    using that by (simp add: resizeImage_def Let_def Math_round_le scaled_less not_le)
  have r3: "resizeImage img ow oh =
              \<lparr>dataUrl = src img, width = int (srcW_of img), height = int (srcH_of img)\<rparr>"
    if "1 \<le> resize_scale img ow oh"
    using that by (simp add: resizeImage_def Let_def)
  from c1 c2 r1 r2 r3 show ?thesis by blast
qed

theorem crop_resize_never_enlarge_witness:
  "0 < srcW_of shot1000 \<and> 0 < srcH_of shot1000
   \<and> cropImage shot1000 300 0 =
       \<lparr>dataUrl = Crop (Orig ''png'') 350 0 300 500, width = 300, height = 500\<rparr>
   \<and> resizeImage shot1000 300 300 =
       \<lparr>dataUrl = Resize (Orig ''png'') 300 150, width = 300, height = 150\<rparr>
   \<and> width (resizeImage shot1000 300 300) \<le> int (srcW_of shot1000)
   \<and> height (resizeImage shot1000 300 300) \<le> int (srcH_of shot1000)
   \<and> resizeImage shot1000 2000 0 = \<lparr>dataUrl = Orig ''png'', width = 1000, height = 500\<rparr>"
proof -
  have pos: "0 < srcW_of shot1000 \<and> 0 < srcH_of shot1000"
    by (simp add: shot1000_def srcW_of_def srcH_of_def)
  have sc: "1 \<le> resize_scale shot1000 2000 0"
    by (simp add: resize_scale_def shot1000_def srcW_of_def srcH_of_def Let_def)
  have a: "cropImage shot1000 300 0 =
             \<lparr>dataUrl = Crop (Orig ''png'') 350 0 300 500, width = 300, height = 500\<rparr>"
    by (simp add: cropImage_def shot1000_def Let_def)
  have b: "resizeImage shot1000 300 300 =
             \<lparr>dataUrl = Resize (Orig ''png'') 300 150, width = 300, height = 150\<rparr>"
    by (simp add: resizeImage_def resize_scale_def Math_round_def shot1000_def
          srcW_of_def srcH_of_def Let_def)
  have c: "resizeImage shot1000 2000 0 = \<lparr>dataUrl = Orig ''png'', width = 1000, height = 500\<rparr>"
    using crop_resize_never_enlarge[of shot1000 300 0 2000 0] pos sc
    by (simp add: shot1000_def srcW_of_def srcH_of_def)
  from crop_resize_never_enlarge[of shot1000 300 0 300 300] pos a b c
  show ?thesis by simp
qed

section \<open>Chunked transfer of the frames to the offscreen document\<close>

text \<open>
  Without crop and resize, and when every frame decodes, the document built by \<open>buildPdf\<close>
  has one page per frame, carrying the frames in the order of the argument.
\<close>

lemma processAll_plain:
  "\<forall>d \<in> set imgs. dec (Orig d) \<noteq> None \<Longrightarrow>
   \<exists>ps. processAll dec False cw ch False ow oh imgs = Some ps \<and> map dataUrl ps = map Orig imgs"
proof (induction imgs)
  case Nil
  then show ?case by simp
next
  case (Cons d ds)
  then obtain ps where ps: "processAll dec False cw ch False ow oh ds = Some ps"
      "map dataUrl ps = map Orig ds"
    by auto
  from Cons.prems obtain w h where "dec (Orig d) = Some (w, h)" by auto
  with ps show ?case
    by (simp add: loadImage_def processImage_def)
qed

lemma buildPdf_plain:
  assumes "imgs \<noteq> []" "\<forall>d \<in> set imgs. dec (Orig d) \<noteq> None"
  shows "pdf_contents (buildPdf dec (0, 0) (0, 0) imgs) = map Orig imgs"
proof -
  from processAll_plain[OF assms(2), of 0 0 0 0] obtain ps where
    ps: "processAll dec False 0 0 False 0 0 imgs = Some ps" "map dataUrl ps = map Orig imgs"
    by blast
  from ps(2) assms(1) have ne: "ps \<noteq> []" by auto
  from assms obtain w h where hd: "dec (Orig (hd imgs)) = Some (w, h)"
    by (cases imgs) auto
  have "map content (page_of f (hd ps) # map (\<lambda>p. page_of p p) (tl ps)) = map dataUrl ps" for f
    using ne by (cases ps) (simp_all add: page_of_def comp_def)
  with ps hd assms(1) show ?thesis
    by (simp add: buildPdf_def pdf_contents_def loadImage_def processImage_def Let_def)
qed

lemma ceil_batches_le: "nat \<lceil>real n / 20\<rceil> \<le> m \<longleftrightarrow> n \<le> 20 * m"
proof -
  have "nat \<lceil>real n / 20\<rceil> \<le> m \<longleftrightarrow> \<lceil>real n / 20\<rceil> \<le> int m"
    by linarith
  also have "\<dots> \<longleftrightarrow> real n / 20 \<le> real m"
    by (simp add: ceiling_le_iff)
  also have "\<dots> \<longleftrightarrow> n \<le> 20 * m"
    by (simp add: field_simps) linarith
  finally show ?thesis .
qed

lemma deliver_batches_in_order:
  assumes "i < length imgs" "batchedImages s = take i imgs" "i = 20 * receivedBatches s"
    "totalBatches s = nat \<lceil>real (length imgs) / 20\<rceil>"
  shows "snd (deliver s (sendBatches imgs i)) = [buildPdf_call s imgs]"
  using assms
proof (induction imgs i arbitrary: s rule: sendBatches.induct)
  case (1 imgs i)
  let ?m = "GeneratePdfBatch (i div 20) (slice imgs i (i + 20)) (length imgs \<le> i + 20)"
  let ?s1 = "s\<lparr>batchedImages := batchedImages s @ slice imgs i (i + 20),
                receivedBatches := receivedBatches s + 1\<rparr>"
  have unfold: "sendBatches imgs i = ?m # sendBatches imgs (i + 20)"
    using "1.prems"(1) by (subst sendBatches.simps) simp
  have acc: "batchedImages ?s1 = take (i + 20) imgs"
    using "1.prems"(2) by (simp add: slice_def take_add)
  have "totalBatches s \<le> receivedBatches s + 1 \<longleftrightarrow> length imgs \<le> 20 * (receivedBatches s + 1)"
    unfolding "1.prems"(4) by (rule ceil_batches_le)
  then have cond: "totalBatches s \<le> receivedBatches s + 1 \<longleftrightarrow> length imgs \<le> i + 20"
    using "1.prems"(3) by (simp only: distrib_left mult_1_right)
  show ?case
  proof (cases "length imgs \<le> i + 20")
    case True
    then have rest: "sendBatches imgs (i + 20) = []"
      by (subst sendBatches.simps) simp
    from True acc have "batchedImages ?s1 = imgs" by simp
    with True cond show ?thesis
      by (simp add: unfold rest Let_def buildPdf_call_def)
  next
    case False
    then have lt: "i + 20 < length imgs" by simp
    have step: "onMessage s ?m = (?s1, [])"
      using False cond by (simp add: Let_def)
    have "snd (deliver ?s1 (sendBatches imgs (i + 20))) = [buildPdf_call ?s1 imgs]"
      using "1.IH"[of ?s1] "1.prems"(1,3,4) lt acc by simp
    then show ?thesis
      by (simp add: unfold step split_beta buildPdf_call_def del: onMessage.simps)
  qed
qed

text \<open>
  When the messages of \<open>generatePdf\<close> arrive in the order in which they were sent, the
  listener makes the same single \<open>buildPdf\<close> call as for an unchunked \<open>generatePdf\<close>
  message with the same frames and settings.
\<close>

lemma chunked_in_order_same_as_single:
  assumes "imgs \<noteq> []"
  shows "snd (deliver s (generatePdf_messages imgs cw ch ow oh))
       = snd (onMessage s (GeneratePdf imgs cw ch ow oh))"
proof (cases "length imgs \<le> 20")
  case True
  then show ?thesis by (simp add: generatePdf_messages_def Let_def)
next
  case False
  let ?s0 = "s\<lparr>batchedImages := [], totalBatches := nat \<lceil>real (length imgs) / 20\<rceil>, receivedBatches := 0,
        cropSettings := (cw, ch), sizeSettings := (ow, oh)\<rparr>"
  have "snd (deliver ?s0 (sendBatches imgs 0)) = [buildPdf_call ?s0 imgs]"
    by (rule deliver_batches_in_order) (use assms in simp_all)
  with False show ?thesis
    by (simp add: generatePdf_messages_def Let_def split_beta buildPdf_call_def)
qed

lemma length_frames41: "length frames41 = 41"
  by (simp add: frames41_def)

lemma frames41_messages:
  "generatePdf_messages frames41 0 0 0 0 =
     [GeneratePdfBatchInit 3 41 0 0 0 0,
      GeneratePdfBatch 0 (take 20 frames41) False,
      GeneratePdfBatch 1 (take 20 (drop 20 frames41)) False,
      GeneratePdfBatch 2 (drop 40 frames41) True]"
  by (simp add: generatePdf_messages_def length_frames41 sendBatches.simps slice_def)

lemma frames41_ne: "frames41 \<noteq> []" "take 20 (drop 20 frames41) \<noteq> []"
  using length_frames41 by auto

lemma frames41_swapped_call:
  "snd (deliver offscreen_init
          [GeneratePdfBatchInit 3 41 0 0 0 0,
           GeneratePdfBatch 1 (take 20 (drop 20 frames41)) False,
           GeneratePdfBatch 0 (take 20 frames41) False,
           GeneratePdfBatch 2 (drop 40 frames41) True])
   = [\<lparr>callCrop = (0, 0), callSize = (0, 0),
       callImages = take 20 (drop 20 frames41) @ take 20 frames41 @ drop 40 frames41\<rparr>]"
  by (simp add: offscreen_init_def Let_def buildPdf_call_def)

lemma frames41_pages:
  "map (pdf_contents \<circ> run_build dec_1280)
     (snd (onMessage offscreen_init (GeneratePdf frames41 0 0 0 0))) = [map Orig frames41]
   \<and> map (pdf_contents \<circ> run_build dec_1280)
       (snd (deliver offscreen_init
               [GeneratePdfBatchInit 3 41 0 0 0 0,
                GeneratePdfBatch 1 (take 20 (drop 20 frames41)) False,
                GeneratePdfBatch 0 (take 20 frames41) False,
                GeneratePdfBatch 2 (drop 40 frames41) True]))
     = [map Orig (take 20 (drop 20 frames41) @ take 20 frames41 @ drop 40 frames41)]"
  by (simp add: frames41_swapped_call run_build_def buildPdf_call_def offscreen_init_def Let_def
        buildPdf_plain dec_1280_def frames41_ne del: map_append)

lemma frames41_last_first:
  "map callImages
     (snd (deliver offscreen_init
             [GeneratePdfBatchInit 3 41 0 0 0 0,
              GeneratePdfBatch 2 (drop 40 frames41) True,
              GeneratePdfBatch 0 (take 20 frames41) False,
              GeneratePdfBatch 1 (take 20 (drop 20 frames41)) False]))
   = [drop 40 frames41, take 20 frames41 @ take 20 (drop 20 frames41)]"
  by (simp add: offscreen_init_def Let_def buildPdf_call_def)

lemma frames41_reordered:
  "take 20 (drop 20 frames41) @ take 20 frames41 @ drop 40 frames41 \<noteq> frames41"
proof
  assume "take 20 (drop 20 frames41) @ take 20 frames41 @ drop 40 frames41 = frames41"
  then have "hd (take 20 (drop 20 frames41) @ take 20 frames41 @ drop 40 frames41) = hd frames41"
    by simp
  then show False
    by (simp add: frames41_def hd_map hd_append drop_map take_map)
qed

text \<open>
  C1. The claim asks that the batches of a chunked transfer, each tagged with its
  \<open>batchIndex\<close>, give the page sequence of the unchunked call in whatever order they
  arrive. The listener never reads \<open>batchIndex\<close>: it appends in arrival order. For the 41
  frames of \<open>frames41\<close> the worker sends an init message and three batches. The unchunked
  message gives a document whose pages carry frames 0..40 in capture order; when batch 1
  arrives before batch 0 the pages of the document carry frames 20..39, then 0..19, then
  40, a different sequence; and when the last batch arrives first, \<open>buildPdf\<close> is called
  twice, with frame 40 alone and with frames 0..39.
\<close>

theorem chunked_out_of_order_differs:
  "generatePdf_messages frames41 0 0 0 0 =
     [GeneratePdfBatchInit 3 41 0 0 0 0,
      GeneratePdfBatch 0 (take 20 frames41) False,
      GeneratePdfBatch 1 (take 20 (drop 20 frames41)) False,
      GeneratePdfBatch 2 (drop 40 frames41) True]
   \<and> map (pdf_contents \<circ> run_build dec_1280)
       (snd (onMessage offscreen_init (GeneratePdf frames41 0 0 0 0))) = [map Orig frames41]
   \<and> map (pdf_contents \<circ> run_build dec_1280)
       (snd (deliver offscreen_init
               [GeneratePdfBatchInit 3 41 0 0 0 0,
                GeneratePdfBatch 1 (take 20 (drop 20 frames41)) False,
                GeneratePdfBatch 0 (take 20 frames41) False,
                GeneratePdfBatch 2 (drop 40 frames41) True]))
     = [map Orig (take 20 (drop 20 frames41) @ take 20 frames41 @ drop 40 frames41)]
   \<and> take 20 (drop 20 frames41) @ take 20 frames41 @ drop 40 frames41 \<noteq> frames41
   \<and> map callImages
       (snd (deliver offscreen_init
               [GeneratePdfBatchInit 3 41 0 0 0 0,
                GeneratePdfBatch 2 (drop 40 frames41) True,
                GeneratePdfBatch 0 (take 20 frames41) False,
                GeneratePdfBatch 1 (take 20 (drop 20 frames41)) False]))
     = [drop 40 frames41, take 20 frames41 @ take 20 (drop 20 frames41)]"
  using frames41_messages frames41_pages frames41_reordered frames41_last_first
  by blast

section \<open>captureWithZoom and the zoom of the tab\<close>

lemma restores_each_last: "restores_each cs \<Longrightarrow> cs \<noteq> [] \<Longrightarrow> fst (last cs) = 1"
  by (induction cs rule: restores_each.induct) auto

lemma restores_each_append:
  "restores_each as \<Longrightarrow> restores_each bs \<Longrightarrow> restores_each (as @ bs)"
proof (induction as rule: restores_each.induct)
  case 1
  then show ?case by simp
next
  case (2 c)
  then show ?case by (cases bs) auto
next
  case (3 c d cs)
  then show ?case by simp
qed

lemma restoredI:
  "zoomCalls e' = zoomCalls e @ cs \<Longrightarrow> cs \<noteq> [] \<Longrightarrow> restores_each cs \<Longrightarrow>
   (snd (last cs) \<Longrightarrow> tabZoom e' = 1) \<Longrightarrow> restored e e'"
  unfolding restored_def by blast

lemma restored_trans:
  assumes "restored e e1" "restored e1 e'"
  shows "restored e e'"
proof -
  from assms(1) obtain cs where
    a: "zoomCalls e1 = zoomCalls e @ cs" "cs \<noteq> []" "restores_each cs"
    unfolding restored_def by blast
  from assms(2) obtain cs' where
    c: "zoomCalls e' = zoomCalls e1 @ cs'" "cs' \<noteq> []" "restores_each cs'"
       "snd (last cs') \<longrightarrow> tabZoom e' = 1"
    unfolding restored_def by blast
  show ?thesis
  proof (rule restoredI[where cs = "cs @ cs'"])
    show "zoomCalls e' = zoomCalls e @ cs @ cs'" using a(1) c(1) by simp
    show "cs @ cs' \<noteq> []" using c(2) by simp
    show "restores_each (cs @ cs')" using a(3) c(3) by (rule restores_each_append)
    show "tabZoom e' = 1" if "snd (last (cs @ cs'))" using that c(2,4) by simp
  qed
qed

lemma try_capture_success:
  assumes "try_capture w z e = (Some d, e1)"
  shows "restored e e1"
proof (rule restoredI[where cs = "[(z, True), (1, True)]"])
  show "zoomCalls e1 = zoomCalls e @ [(z, True), (1, True)]"
    using assms
    by (auto simp: try_capture_def setZoom_def captureVisibleTab_def sleep_def tick_def
          split: option.splits if_splits)
  show "tabZoom e1 = 1" if "snd (last [(z, True), (1::real, True)])"
    using assms
    by (auto simp: try_capture_def setZoom_def captureVisibleTab_def sleep_def tick_def
          split: option.splits if_splits)
qed simp_all

lemma try_capture_failure:
  assumes "try_capture w z e = (None, e1)"
  shows "restored e (restore_after_error w e1)"
proof -
  let ?b = "zoomOk w (clock e1)"
  have shapes: "zoomCalls e1 = zoomCalls e @ [(z, False)]
              \<or> zoomCalls e1 = zoomCalls e @ [(z, True)]
              \<or> zoomCalls e1 = zoomCalls e @ [(z, True), (1, False)]"
    using assms
    by (auto simp: try_capture_def setZoom_def captureVisibleTab_def sleep_def tick_def
          split: option.splits if_splits)
  have r: "zoomCalls (restore_after_error w e1) = zoomCalls e1 @ [(1, ?b)]"
    by (simp add: restore_after_error_def setZoom_def sleep_def tick_def)
  have t: "?b \<Longrightarrow> tabZoom (restore_after_error w e1) = 1"
    by (simp add: restore_after_error_def setZoom_def sleep_def tick_def)
  from shapes consider
      (a) "zoomCalls e1 = zoomCalls e @ [(z, False)]"
    | (b) "zoomCalls e1 = zoomCalls e @ [(z, True)]"
    | (c) "zoomCalls e1 = zoomCalls e @ [(z, True), (1, False)]"
    by blast
  then show ?thesis
  proof cases
    case a
    show ?thesis
      by (rule restoredI[where cs = "[(z, False), (1, ?b)]"]) (use a r t in simp_all)
  next
    case b
    show ?thesis
      by (rule restoredI[where cs = "[(z, True), (1, ?b)]"]) (use b r t in simp_all)
  next
    case c
    show ?thesis
      by (rule restoredI[where cs = "[(z, True), (1, False), (1, ?b)]"]) (use c r t in simp_all)
  qed
qed

lemma captureVisibleTab_restored:
  "restored e e1 \<Longrightarrow> restored e (snd (captureVisibleTab w e1))"
  by (simp add: restored_def captureVisibleTab_def tick_def)

lemma captureWithZoom_from_restored:
  "attempt < MAX_RETRIES \<Longrightarrow> restored e (snd (captureWithZoom_from w z attempt e))"
proof (induction w z attempt e rule: captureWithZoom_from.induct)
  case (1 w z attempt e)
  obtain r e1 where tc: "try_capture w z e = (r, e1)" by (cases "try_capture w z e")
  show ?case
  proof (cases r)
    case (Some d)
    with tc "1.prems" try_capture_success[of w z e d e1] show ?thesis
      by (subst captureWithZoom_from.simps) simp
  next
    case None
    have r1: "restored e (restore_after_error w e1)"
      using try_capture_failure tc None by simp
    show ?thesis
    proof (cases "attempt = MAX_RETRIES - 1")
      case True
      with None tc "1.prems" captureVisibleTab_restored[OF r1] show ?thesis
        by (subst captureWithZoom_from.simps) simp
    next
      case False
      with "1.prems" have lt: "attempt + 1 < MAX_RETRIES" by simp
      have "restored (restore_after_error w e1)
              (snd (captureWithZoom_from w z (attempt + 1) (restore_after_error w e1)))"
        using "1.IH"[OF "1.prems" tc[symmetric] None False lt] .
      with r1 have "restored e (snd (captureWithZoom_from w z (attempt + 1) (restore_after_error w e1)))"
        by (rule restored_trans)
      with None tc "1.prems" False show ?thesis
        by (subst captureWithZoom_from.simps) simp
    qed
  qed
qed

lemma captureWithZoom_all_resolve:
  "\<forall>t. zoomOk w t \<Longrightarrow> attempt < MAX_RETRIES \<Longrightarrow>
   tabZoom (snd (captureWithZoom_from w z attempt e)) = 1"
proof (induction w z attempt e rule: captureWithZoom_from.induct)
  case (1 w z attempt e)
  obtain r e1 where tc: "try_capture w z e = (r, e1)" by (cases "try_capture w z e")
  show ?case
  proof (cases r)
    case (Some d)
    with tc "1.prems" show ?thesis
      by (subst captureWithZoom_from.simps)
         (auto simp: try_capture_def setZoom_def captureVisibleTab_def sleep_def tick_def
               split: option.splits if_splits)
  next
    case None
    have z1: "tabZoom (restore_after_error w e1) = 1"
      using "1.prems"(1) by (simp add: restore_after_error_def setZoom_def sleep_def tick_def)
    show ?thesis
    proof (cases "attempt = MAX_RETRIES - 1")
      case True
      with None tc "1.prems" z1 show ?thesis
        by (subst captureWithZoom_from.simps) (simp add: captureVisibleTab_def tick_def)
    next
      case False
      with "1.prems" have lt: "attempt + 1 < MAX_RETRIES" by simp
      from "1.IH"[OF "1.prems"(2) tc[symmetric] None False "1.prems"(1) lt]
      show ?thesis using None tc "1.prems" False
        by (subst captureWithZoom_from.simps) simp
    qed
  qed
qed

text \<open>
  C6, as amended. On every path through \<open>captureWithZoom\<close> (a capture that succeeds, an
  attempt that throws, the final attempt without zoom) every zoom-in is directly followed
  by a \<open>setZoom\<close> call for 1.0, so the last \<open>setZoom\<close> call before the return asks for
  1.0; the tab is at 1.0 on return if that call resolved, in particular in every browser
  that rejects no \<open>setZoom\<close> call. A restore call that is rejected in the \<open>catch\<close> block
  is ignored.
\<close>

theorem captureWithZoom_restores:
  "(\<exists>cs. zoomCalls (snd (captureWithZoom w z e)) = zoomCalls e @ cs \<and> cs \<noteq> []
         \<and> restores_each cs \<and> fst (last cs) = 1
         \<and> (snd (last cs) \<longrightarrow> tabZoom (snd (captureWithZoom w z e)) = 1))
   \<and> ((\<forall>t. zoomOk w t) \<longrightarrow> tabZoom (snd (captureWithZoom w z e)) = 1)"
proof -
  have "restored e (snd (captureWithZoom w z e))"
    using captureWithZoom_from_restored[of 0 e w z] by (simp add: captureWithZoom_def)
  then obtain cs where
    cs: "zoomCalls (snd (captureWithZoom w z e)) = zoomCalls e @ cs" "cs \<noteq> []"
        "restores_each cs" "snd (last cs) \<longrightarrow> tabZoom (snd (captureWithZoom w z e)) = 1"
    unfolding restored_def by blast
  from cs(2,3) have "fst (last cs) = 1"
    by (simp add: restores_each_last)
  moreover have "tabZoom (snd (captureWithZoom w z e)) = 1" if "\<forall>t. zoomOk w t"
    using captureWithZoom_all_resolve[OF that, of 0 z e] by (simp add: captureWithZoom_def)
  ultimately show ?thesis using cs by blast
qed

theorem captureWithZoom_restores_witness:
  "(\<forall>t. zoomOk (w_fine\<lparr>shot := (\<lambda>t. None)\<rparr>) t)
   \<and> captureWithZoom (w_fine\<lparr>shot := (\<lambda>t. None)\<rparr>) 2 e0 =
       (None, \<lparr>clock = 16, tabZoom = 1,
               zoomCalls = [(2, True), (1, True), (2, True), (1, True), (2, True), (1, True)]\<rparr>)
   \<and> tabZoom (snd (captureWithZoom (w_fine\<lparr>shot := (\<lambda>t. None)\<rparr>) 2 e0)) = 1"
proof -
  have h: "\<forall>t. zoomOk (w_fine\<lparr>shot := (\<lambda>t. None)\<rparr>) t"
    by (simp add: w_fine_def)
  have v: "captureWithZoom (w_fine\<lparr>shot := (\<lambda>t. None)\<rparr>) 2 e0 =
       (None, \<lparr>clock = 16, tabZoom = 1,
               zoomCalls = [(2, True), (1, True), (2, True), (1, True), (2, True), (1, True)]\<rparr>)"
    by (simp add: evals)
  from captureWithZoom_restores[of "w_fine\<lparr>shot := (\<lambda>t. None)\<rparr>" 2 e0] h v
  show ?thesis by blast
qed

text \<open>
  The claim as stated fails: in a browser that resolves the first zoom-in and rejects every
  later \<open>setZoom\<close> call, \<open>captureWithZoom\<close> returns a frame while the tab is still at 2.0.
\<close>

theorem captureWithZoom_zoom_left_counterexample:
  "captureWithZoom (w_fine\<lparr>zoomOk := (\<lambda>t. t = 0)\<rparr>) 2 e0 =
     (Some (frame 50000),
      \<lparr>clock = 13, tabZoom = 2,
       zoomCalls = [(2, True), (1, False), (1, False), (2, False), (1, False),
                    (2, False), (1, False)]\<rparr>)
   \<and> tabZoom (snd (captureWithZoom (w_fine\<lparr>zoomOk := (\<lambda>t. t = 0)\<rparr>) 2 e0)) \<noteq> 1"
  by (simp add: evals)

section \<open>captureWithRetry and the blank-page threshold\<close>

lemma try_capture_clock: "clock e < clock (snd (try_capture w z e))"
  by (simp add: try_capture_def setZoom_def captureVisibleTab_def sleep_def tick_def
        split: option.splits)

lemma restore_after_error_clock: "clock e < clock (restore_after_error w e)"
  by (simp add: restore_after_error_def setZoom_def sleep_def tick_def)

lemma captureWithZoom_from_clock:
  "clock e \<le> clock (snd (captureWithZoom_from w z attempt e))"
proof (induction w z attempt e rule: captureWithZoom_from.induct)
  case (1 w z attempt e)
  obtain r e1 where tc: "try_capture w z e = (r, e1)" by (cases "try_capture w z e")
  have c1: "clock e < clock e1" using try_capture_clock[of e w z] tc by simp
  show ?case
  proof (cases "attempt < MAX_RETRIES")
    case False
    then show ?thesis by (subst captureWithZoom_from.simps) simp
  next
    case lt: True
    show ?thesis
    proof (cases r)
      case (Some d)
      with tc lt c1 show ?thesis by (subst captureWithZoom_from.simps) simp
    next
      case None
      have c2: "clock e1 < clock (restore_after_error w e1)" by (rule restore_after_error_clock)
      show ?thesis
      proof (cases "attempt = MAX_RETRIES - 1")
        case True
        with None tc lt c1 c2 show ?thesis
          by (subst captureWithZoom_from.simps) (simp add: captureVisibleTab_def tick_def)
      next
        case False
        from "1.IH"[OF lt tc[symmetric] None False] c1 c2
        show ?thesis using None tc lt False
          by (subst captureWithZoom_from.simps) simp
      qed
    qed
  qed
qed

lemma waitForContentReady_from_clock:
  "clock e \<le> clock (waitForContentReady_from w i e)"
proof (induction w i e rule: waitForContentReady_from.induct)
  case (1 w i e)
  let ?e' = "sleep CHECK_INTERVAL (tick e)"
  have step: "clock e \<le> clock ?e'" by (simp add: sleep_def tick_def)
  show ?case
  proof (cases "i < MAX_CHECKS")
    case False
    then show ?thesis by (subst waitForContentReady_from.simps) simp
  next
    case True
    show ?thesis
    proof (cases "probe w (clock e)")
      case Rejected
      with True show ?thesis
        by (subst waitForContentReady_from.simps) (simp add: tick_def)
    next
      case NoResponse
      from "1.IH"(1)[OF True NoResponse] step True NoResponse show ?thesis
        by (subst waitForContentReady_from.simps) simp
    next
      case (Response b)
      show ?thesis
      proof (cases b)
        case True
        with \<open>i < MAX_CHECKS\<close> Response show ?thesis
          by (subst waitForContentReady_from.simps) (simp add: tick_def)
      next
        case False
        then have bF: "b = False" by simp
        from "1.IH"(2)[OF \<open>i < MAX_CHECKS\<close> Response bF] step \<open>i < MAX_CHECKS\<close> Response False
        show ?thesis
          by (subst waitForContentReady_from.simps) simp
      qed
    qed
  qed
qed

lemma captureWithRetry_from_clock:
  "clock e \<le> clock (snd (captureWithRetry_from w z dl attempt e))"
proof (induction w z dl attempt e rule: captureWithRetry_from.induct)
  case (1 w z dl attempt e)
  obtain r e1 where cz: "captureWithZoom w z e = (r, e1)" by (cases "captureWithZoom w z e")
  have c1: "clock e \<le> clock e1"
    using captureWithZoom_from_clock[of e w z 0] cz by (simp add: captureWithZoom_def)
  show ?case
  proof (cases "attempt < MAX_RETRIES")
    case False
    with cz c1 show ?thesis by (subst captureWithRetry_from.simps) simp
  next
    case lt: True
    show ?thesis
    proof (cases "\<exists>d. r = Some d \<and> d \<noteq> [] \<and> \<not> 30 < sizeKB d")
      case False
      with cz c1 lt show ?thesis
        by (subst captureWithRetry_from.simps) (auto split: option.splits)
    next
      case True
      then obtain d where d: "r = Some d" "d \<noteq> []" "\<not> 30 < sizeKB d" by blast
      let ?e2 = "waitForContentReady w dl (sleep (RETRY_WAIT * (int attempt + 1)) e1)"
      have "clock e1 \<le> clock ?e2"
        using waitForContentReady_from_clock[of "sleep (RETRY_WAIT * (int attempt + 1)) e1" w 0]
        by (simp add: waitForContentReady_def sleep_def tick_def)
      moreover have "clock ?e2 \<le> clock (snd (captureWithRetry_from w z dl (attempt + 1) ?e2))"
        by (rule "1.IH"[OF lt cz[symmetric] d])
      ultimately show ?thesis using cz c1 lt d
        by (subst captureWithRetry_from.simps) simp
    qed
  qed
qed

lemma png_dataUrl_length:
  assumes "png_dataUrl d"
  shows "\<exists>k. length d = 22 + 4 * k"
proof -
  from assms have t: "take 22 d = png_prefix" and m: "(length d - 22) mod 4 = 0"
    by (simp_all add: png_dataUrl_def)
  from t have "length (take 22 d) = 22" by (simp add: png_prefix_def)
  then have "22 \<le> length d" by simp
  moreover from m obtain k where "length d - 22 = 4 * k" by (auto simp: mod_eq_0_iff_dvd)
  ultimately have "length d = 22 + 4 * k" by simp
  then show ?thesis ..
qed

lemma png_dataUrl_size:
  assumes "png_dataUrl d"
  shows "sizeKB d \<noteq> 30" and "d \<noteq> []"
proof -
  from png_dataUrl_length[OF assms] obtain k where k: "length d = 22 + 4 * k" ..
  have "22 + 4 * k \<noteq> (40960::nat)" by presburger
  then show "sizeKB d \<noteq> 30"
    using k by (simp add: sizeKB_def)
  from k show "d \<noteq> []" by auto
qed

text \<open>
  C2, as amended. In each of the first three captures of \<open>captureWithRetry\<close>, a frame
  whose approximate size is below 30 KB is dropped: the worker sleeps, polls readiness and
  captures again, so it returns later than that capture; and a frame whose size is at or
  above 30 KB is returned at once. The frame is a PNG data URL, of 22 + 4k characters, so
  its size is never exactly 30 KB (40960 characters), and the test \<open>sizeKB > 30\<close> of the
  source decides as \<open>sizeKB \<ge> 30\<close> would. After three dropped frames the fourth capture
  is returned whatever its size.
\<close>

theorem blank_suspect_classification:
  assumes "attempt < MAX_RETRIES" "captureWithZoom w z e = (Some d, e1)" "png_dataUrl d"
  shows "(30 \<le> sizeKB d \<longrightarrow> captureWithRetry_from w z dl attempt e = (Some d, e1))
       \<and> (sizeKB d < 30 \<longrightarrow>
            captureWithRetry_from w z dl attempt e =
              captureWithRetry_from w z dl (attempt + 1)
                (waitForContentReady w dl (sleep (RETRY_WAIT * (int attempt + 1)) e1))
          \<and> clock e1 < clock (snd (captureWithRetry_from w z dl attempt e)))
       \<and> sizeKB d \<noteq> 30
       \<and> captureWithRetry_from w z dl MAX_RETRIES e = captureWithZoom w z e"
proof -
  let ?e2 = "waitForContentReady w dl (sleep (RETRY_WAIT * (int attempt + 1)) e1)"
  note ne = png_dataUrl_size[OF assms(3)]
  have a: "captureWithRetry_from w z dl attempt e = (Some d, e1)" if "30 \<le> sizeKB d"
    using that assms(1,2) ne by (subst captureWithRetry_from.simps) simp
  have b: "captureWithRetry_from w z dl attempt e = captureWithRetry_from w z dl (attempt + 1) ?e2"
    if "sizeKB d < 30"
    using that assms(1,2) ne by (subst captureWithRetry_from.simps) simp
  have "clock e1 < clock ?e2"
    using waitForContentReady_from_clock[of "sleep (RETRY_WAIT * (int attempt + 1)) e1" w 0]
    by (simp add: waitForContentReady_def sleep_def tick_def)
  also have "\<dots> \<le> clock (snd (captureWithRetry_from w z dl (attempt + 1) ?e2))"
    by (rule captureWithRetry_from_clock)
  finally have c: "clock e1 < clock (snd (captureWithRetry_from w z dl attempt e))"
    if "sizeKB d < 30"
    using b[OF that] by simp
  have e: "captureWithRetry_from w z dl MAX_RETRIES e = captureWithZoom w z e"
    by (subst captureWithRetry_from.simps) simp
  from a b c ne(1) e show ?thesis by blast
qed

lemma small_first_zoom:
  "captureWithZoom w_small_first 2 e0 =
     (Some (png_frame 3000), \<lparr>clock = 5, tabZoom = 1, zoomCalls = [(2, True), (1, True)]\<rparr>)"
  by (simp add: evals w_small_first_def)

theorem blank_suspect_classification_witness:
  "0 < MAX_RETRIES \<and> png_dataUrl (png_frame 3000) \<and> sizeKB (png_frame 3000) < 30
   \<and> captureWithZoom w_small_first 2 e0 =
       (Some (png_frame 3000), \<lparr>clock = 5, tabZoom = 1, zoomCalls = [(2, True), (1, True)]\<rparr>)
   \<and> 5 < clock (snd (captureWithRetry_from w_small_first 2 2000 0 e0))"
proof -
  have h1: "0 < MAX_RETRIES" by simp
  have h3: "png_dataUrl (png_frame 3000)" by simp
  have h4: "sizeKB (png_frame 3000) < 30" by (simp add: sizeKB_def)
  from blank_suspect_classification[OF h1 small_first_zoom h3, of 2000] h4
  have "clock \<lparr>clock = 5, tabZoom = 1, zoomCalls = [(2, True), (1::real, True)]\<rparr>
        < clock (snd (captureWithRetry_from w_small_first 2 2000 0 e0))"
    by blast
  with h1 h3 h4 small_first_zoom show ?thesis by simp
qed

text \<open>
  The claim as stated fails at the fourth capture: in a browser whose every capture is a
  PNG data URL of about 8.8 KB, \<open>captureWithRetry\<close> drops three frames and then, from the
  tab at clock 21, makes one more capture, whose frame is below the threshold as well and
  is returned without a retry: the call ends at clock 26, after four zoom-ins in all.
\<close>

theorem fourth_capture_not_retried_counterexample:
  "png_dataUrl (png_frame 3000) \<and> sizeKB (png_frame 3000) < 30
   \<and> captureWithRetry w_small 2 2000 e0 =
       captureWithRetry_from w_small 2 2000 MAX_RETRIES
         \<lparr>clock = 21, tabZoom = 1,
          zoomCalls = [(2, True), (1, True), (2, True), (1, True), (2, True), (1, True)]\<rparr>
   \<and> captureWithZoom w_small 2
         \<lparr>clock = 21, tabZoom = 1,
          zoomCalls = [(2, True), (1, True), (2, True), (1, True), (2, True), (1, True)]\<rparr>
       = (Some (png_frame 3000),
          \<lparr>clock = 26, tabZoom = 1,
           zoomCalls = [(2, True), (1, True), (2, True), (1, True), (2, True), (1, True),
                        (2, True), (1, True)]\<rparr>)
   \<and> captureWithRetry w_small 2 2000 e0 =
       (Some (png_frame 3000),
        \<lparr>clock = 26, tabZoom = 1,
         zoomCalls = [(2, True), (1, True), (2, True), (1, True), (2, True), (1, True),
                      (2, True), (1, True)]\<rparr>)"
  by (simp add: evals w_small_def)

section \<open>The capture loop: frames, pages and progress\<close>

lemma during_fields [simp]:
  "images (during w s e') = images s" "sent (during w s e') = sent s"
  "totalPages (during w s e') = totalPages s" "browser (during w s e') = e'"
  "startPage (during w s e') = startPage s" "endPage (during w s e') = endPage s"
  by (simp_all add: during_def)

lemma during_no_stop [simp]: "\<forall>t. \<not> stopAt w t \<Longrightarrow> isRunning (during w s e') = isRunning s"
  by (simp add: during_def list_ex_iff)

lemma generatePdf_fields [simp]:
  "images (generatePdf w s) = images s" "totalPages (generatePdf w s) = totalPages s"
  by (simp_all add: generatePdf_def Let_def broadcast_def)

lemma body_Continue:
  assumes "captureLoop_body w sp z dl dir page s = Continue r s'"
  shows "images s' = images s @ (case r of None \<Rightarrow> [] | Some d \<Rightarrow> if d = [] then [] else [d])"
    and "sent s' = sent s @ [Progress (page - sp + 1) (totalPages s)]"
    and "totalPages s' = totalPages s"
    and "isRunning s"
  using assms
  by (auto simp: captureLoop_body_def Let_def broadcastProgress_def broadcast_def
        split: if_splits prod.splits option.splits)

lemma body_other:
  assumes "captureLoop_body w sp z dl dir page s = Returned s' \<or>
           captureLoop_body w sp z dl dir page s = Broke s'"
  shows "images s' = images s"
  using assms
  by (auto simp: captureLoop_body_def Let_def stopKeepAlive_def broadcast_def
        split: if_splits prod.splits option.splits)

lemma body_no_stop:
  assumes "isRunning s" "\<forall>t. \<not> stopAt w t"
  shows "\<exists>r s'. captureLoop_body w sp z dl dir page s = Continue r s' \<and> isRunning s'"
  using assms
  by (auto simp: captureLoop_body_def Let_def broadcastProgress_def broadcast_def
        split: if_splits prod.splits option.splits)

lemma states_bounded:
  "int (length (images s)) \<le> page - sp \<Longrightarrow> page \<le> ep + 1 \<Longrightarrow>
   \<forall>s' \<in> set (captureLoop_states w sp ep z dl dir page s). int (length (images s')) \<le> ep - sp + 1"
proof (induction w sp ep z dl dir page s rule: captureLoop_states.induct)
  case (1 w sp ep z dl dir page s)
  show ?case
  proof (cases "page \<le> ep")
    case False
    with "1.prems" show ?thesis
      by (subst captureLoop_states.simps) simp
  next
    case le: True
    have here: "int (length (images s)) \<le> ep - sp + 1" using "1.prems" by simp
    show ?thesis
    proof (cases "captureLoop_body w sp z dl dir page s")
      case (Returned s')
      with body_other[of w sp z dl dir page s s'] here le show ?thesis
        by (subst captureLoop_states.simps) simp
    next
      case (Broke s')
      with body_other[of w sp z dl dir page s s'] here le show ?thesis
        by (subst captureLoop_states.simps) simp
    next
      case (Continue r s')
      have "int (length (images s')) \<le> page + 1 - sp"
        using body_Continue(1)[OF Continue] "1.prems"(1) by (simp split: option.splits)
      then have "\<forall>x \<in> set (captureLoop_states w sp ep z dl dir (page + 1) s').
                   int (length (images x)) \<le> ep - sp + 1"
        using le by (intro "1.IH"[OF le Continue]) simp_all
      with Continue here le show ?thesis
        by (subst captureLoop_states.simps) simp
    qed
  qed
qed

lemma loop_result_in_states:
  "snd (captureLoop_for w sp ep z dl dir page s) \<in> set (captureLoop_states w sp ep z dl dir page s)"
proof (induction w sp ep z dl dir page s rule: captureLoop_for.induct)
  case (1 w sp ep z dl dir page s)
  show ?case
  proof (cases "page \<le> ep")
    case False
    then show ?thesis
      by (subst captureLoop_for.simps, subst captureLoop_states.simps) simp
  next
    case le: True
    show ?thesis
    proof (cases "captureLoop_body w sp z dl dir page s")
      case (Continue r s')
      from "1.IH"[OF le Continue] Continue le show ?thesis
        by (subst captureLoop_for.simps, subst captureLoop_states.simps) simp
    qed (use le in \<open>subst captureLoop_for.simps, subst captureLoop_states.simps, simp\<close>)+
  qed
qed

lemma natural_completion:
  "isRunning s \<Longrightarrow> \<forall>t. \<not> stopAt w t \<Longrightarrow> page \<le> ep + 1 \<Longrightarrow>
   \<exists>s'. captureLoop_for w sp ep z dl dir page s = (False, s') \<and> isRunning s'
      \<and> int (length (images s')) + int (length (captureLoop_missing w sp ep z dl dir page s))
          = int (length (images s)) + (ep + 1 - page)"
proof (induction w sp ep z dl dir page s rule: captureLoop_for.induct)
  case (1 w sp ep z dl dir page s)
  show ?case
  proof (cases "page \<le> ep")
    case False
    with "1.prems" show ?thesis
      by (subst captureLoop_for.simps, subst captureLoop_missing.simps) simp
  next
    case le: True
    from body_no_stop[OF "1.prems"(1,2)] obtain r s1 where
      b: "captureLoop_body w sp z dl dir page s = Continue r s1" and run: "isRunning s1"
      by blast
    from "1.IH"[OF le b run "1.prems"(2)] le obtain s' where
      l: "captureLoop_for w sp ep z dl dir (page + 1) s1 = (False, s')" "isRunning s'"
         "int (length (images s')) + int (length (captureLoop_missing w sp ep z dl dir (page + 1) s1))
          = int (length (images s1)) + (ep + 1 - (page + 1))"
      by auto
    have one: "int (length (images s1)) + (if r = None \<or> r = Some [] then 1 else 0)
               = int (length (images s)) + 1"
      using body_Continue(1)[OF b] by (auto split: option.splits)
    have loop: "captureLoop_for w sp ep z dl dir page s = (False, s')"
      using le b l(1) by (subst captureLoop_for.simps) simp
    have miss: "int (length (captureLoop_missing w sp ep z dl dir page s))
                = (if r = None \<or> r = Some [] then 1 else 0)
                  + int (length (captureLoop_missing w sp ep z dl dir (page + 1) s1))"
      using le b by (subst captureLoop_missing.simps) simp
    from loop l(2,3) one miss show ?thesis by simp
  qed
qed

lemma navigate_for_fields:
  "images (navigate_for w sp dl dir i s) = images s \<and>
   totalPages (navigate_for w sp dl dir i s) = totalPages s"
proof (induction w sp dl dir i s rule: navigate_for.induct)
  case (1 w sp dl dir i s)
  show ?case
  proof (cases "i < sp \<and> isRunning s")
    case True
    with "1.IH" show ?thesis
      by (subst (1 2) navigate_for.simps) simp
  next
    case False
    then show ?thesis
      by (subst (1 2) navigate_for.simps) auto
  qed
qed

lemma captureLoop_finish_images [simp]: "images (captureLoop_finish w s) = images s"
  by (simp add: captureLoop_finish_def stopKeepAlive_def broadcast_def)

lemma captureLoop_bounded:
  assumes "startPage s \<le> endPage s" "images s = []" "totalPages s = endPage s - startPage s + 1"
  shows "int (length (images (captureLoop w s))) \<le> totalPages s"
proof -
  let ?dir = "if pageDirection s = Left then Prev else Next"
  let ?s1 = "if 1 < startPage s
             then navigate_for w (startPage s) (delay s) ?dir 1 (broadcastProgress 0 (totalPages s) s)
             else s"
  let ?out = "captureLoop_for w (startPage s) (endPage s) (zoomLevel s) (delay s) ?dir (startPage s) ?s1"
  have i1: "images ?s1 = []"
    using assms(2) by (simp add: navigate_for_fields broadcastProgress_def broadcast_def)
  have "\<forall>s' \<in> set (captureLoop_states w (startPage s) (endPage s) (zoomLevel s) (delay s) ?dir (startPage s) ?s1).
           int (length (images s')) \<le> endPage s - startPage s + 1"
    by (rule states_bounded) (use i1 assms(1) in simp_all)
  then have "int (length (images (snd ?out))) \<le> endPage s - startPage s + 1"
    using loop_result_in_states by blast
  moreover have "images (captureLoop w s) = images (snd ?out)"
    by (cases ?out) (auto simp: captureLoop_def Let_def split: bool.splits)
  ultimately show ?thesis using assms(3) by simp
qed

lemma try_capture_resolves:
  assumes "\<forall>t. zoomOk w t" "\<forall>t. \<exists>d. shot w t = Some d \<and> d \<noteq> []"
  shows "\<exists>d e1. try_capture w z e = (Some d, e1) \<and> d \<noteq> []"
proof -
  from assms(2) obtain d where "shot w (clock e + 2) = Some d" "d \<noteq> []" by blast
  with assms(1) show ?thesis
    by (simp add: try_capture_def setZoom_def captureVisibleTab_def sleep_def tick_def)
qed

lemma captureWithZoom_resolves:
  assumes "\<forall>t. zoomOk w t" "\<forall>t. \<exists>d. shot w t = Some d \<and> d \<noteq> []"
  shows "\<exists>d e1. captureWithZoom w z e = (Some d, e1) \<and> d \<noteq> []"
proof -
  from try_capture_resolves[OF assms, of z e] obtain d e1 where
    "try_capture w z e = (Some d, e1)" "d \<noteq> []" by blast
  then show ?thesis
    by (simp add: captureWithZoom_def) (subst captureWithZoom_from.simps, simp)
qed

lemma captureWithRetry_from_resolves:
  assumes "\<forall>t. zoomOk w t" "\<forall>t. \<exists>d. shot w t = Some d \<and> d \<noteq> []"
  shows "\<exists>d e1. captureWithRetry_from w z dl attempt e = (Some d, e1) \<and> d \<noteq> []"
  using assms
proof (induction w z dl attempt e rule: captureWithRetry_from.induct)
  case (1 w z dl attempt e)
  from captureWithZoom_resolves[OF "1.prems", of z e] obtain d e1 where
    cz: "captureWithZoom w z e = (Some d, e1)" and d: "d \<noteq> []" by blast
  show ?case
  proof (cases "attempt < MAX_RETRIES")
    case False
    with cz d show ?thesis by (subst captureWithRetry_from.simps) simp
  next
    case lt: True
    show ?thesis
    proof (cases "30 < sizeKB d")
      case True
      with cz d lt show ?thesis by (subst captureWithRetry_from.simps) simp
    next
      case False
      from "1.IH"[OF lt cz[symmetric] refl d False "1.prems"] cz d lt False
      show ?thesis by (subst captureWithRetry_from.simps) simp
    qed
  qed
qed

lemma body_resolves:
  assumes "isRunning s" "\<forall>t. \<not> stopAt w t" "\<forall>t. zoomOk w t"
    "\<forall>t. \<exists>d. shot w t = Some d \<and> d \<noteq> []"
  shows "\<exists>d s'. captureLoop_body w sp z dl dir page s = Continue (Some d) s' \<and> d \<noteq> []
               \<and> isRunning s' \<and> images s' = images s @ [d]"
proof -
  from body_no_stop[OF assms(1,2)] obtain r s' where
    b: "captureLoop_body w sp z dl dir page s = Continue r s'" and run: "isRunning s'" by blast
  have "\<exists>e e4. captureWithRetry w z dl e = (r, e4)"
    using b assms(1)
    by (auto simp: captureLoop_body_def Let_def split: if_splits prod.splits)
  then obtain e e4 where "captureWithRetry w z dl e = (r, e4)" by blast
  moreover from captureWithRetry_from_resolves[OF assms(3,4), of z dl 0 e] obtain d e1 where
    "captureWithRetry w z dl e = (Some d, e1)" "d \<noteq> []"
    by (auto simp: captureWithRetry_def)
  ultimately have r: "r = Some d" by simp
  from body_Continue(1)[OF b] r \<open>d \<noteq> []\<close> have "images s' = images s @ [d]" by simp
  with b r run \<open>d \<noteq> []\<close> show ?thesis by blast
qed

lemma loop_resolves:
  "isRunning s \<Longrightarrow> \<forall>t. \<not> stopAt w t \<Longrightarrow> \<forall>t. zoomOk w t \<Longrightarrow>
   \<forall>t. \<exists>d. shot w t = Some d \<and> d \<noteq> [] \<Longrightarrow> page \<le> ep + 1 \<Longrightarrow>
   \<exists>s'. captureLoop_for w sp ep z dl dir page s = (False, s') \<and> isRunning s'
      \<and> int (length (images s')) = int (length (images s)) + (ep + 1 - page)
      \<and> totalPages s' = totalPages s"
proof (induction w sp ep z dl dir page s rule: captureLoop_for.induct)
  case (1 w sp ep z dl dir page s)
  show ?case
  proof (cases "page \<le> ep")
    case False
    with "1.prems" show ?thesis
      by (subst captureLoop_for.simps) simp
  next
    case le: True
    from body_resolves[OF "1.prems"(1-4)] obtain d s1 where
      b: "captureLoop_body w sp z dl dir page s = Continue (Some d) s1" and
      s1: "isRunning s1" "images s1 = images s @ [d]"
      by blast
    from "1.IH"[OF le b s1(1) "1.prems"(2-4)] le obtain s' where
      l: "captureLoop_for w sp ep z dl dir (page + 1) s1 = (False, s')" "isRunning s'"
         "int (length (images s')) = int (length (images s1)) + (ep + 1 - (page + 1))"
         "totalPages s' = totalPages s1"
      by auto
    have "captureLoop_for w sp ep z dl dir page s = (False, s')"
      using le b l(1) by (subst captureLoop_for.simps) simp
    with l s1 body_Continue(3)[OF b] show ?thesis by simp
  qed
qed

text \<open>
  A session in which the user at most presses stop. From a valid state (\<open>startPage \<le>
  endPage\<close>, no frame yet, \<open>totalPages\<close> as set by \<open>handleStartCapture\<close>) the number of
  accumulated frames is at most \<open>totalPages\<close> at every boundary of the main loop and when
  \<open>captureLoop\<close> returns. When no stop arrives, the loop runs to its natural end and the
  number of frames plus the number of pages for which \<open>captureWithRetry\<close> gave no frame
  equals \<open>totalPages\<close>; and when moreover every \<open>setZoom\<close> call resolves and every capture
  gives a non-empty data URL, no page is without a frame.
\<close>

lemma one_session_frames:
  assumes "sp \<le> ep" "images s = []" "totalPages s = ep - sp + 1"
  shows "\<forall>s' \<in> set (captureLoop_states w sp ep z dl dir sp s).
           int (length (images s')) \<le> totalPages s"
    and "isRunning s \<Longrightarrow> \<forall>t. \<not> stopAt w t \<Longrightarrow>
         \<exists>s'. captureLoop_for w sp ep z dl dir sp s = (False, s')
            \<and> int (length (images s')) + int (length (captureLoop_missing w sp ep z dl dir sp s))
                = totalPages s"
    and "isRunning s \<Longrightarrow> \<forall>t. \<not> stopAt w t \<Longrightarrow> \<forall>t. zoomOk w t \<Longrightarrow>
         \<forall>t. \<exists>d. shot w t = Some d \<and> d \<noteq> [] \<Longrightarrow>
         \<exists>s'. captureLoop_for w sp ep z dl dir sp s = (False, s')
            \<and> int (length (images s')) = totalPages s \<and> totalPages s' = totalPages s"
    and "sp = startPage s \<Longrightarrow> ep = endPage s \<Longrightarrow>
         int (length (images (captureLoop w s))) \<le> totalPages s"
proof -
  show "\<forall>s' \<in> set (captureLoop_states w sp ep z dl dir sp s).
          int (length (images s')) \<le> totalPages s"
    using states_bounded[of s sp sp ep w z dl dir] assms by simp
  show "\<exists>s'. captureLoop_for w sp ep z dl dir sp s = (False, s')
            \<and> int (length (images s')) + int (length (captureLoop_missing w sp ep z dl dir sp s))
                = totalPages s"
    if "isRunning s" "\<forall>t. \<not> stopAt w t"
    using natural_completion[OF that, of sp ep sp z dl dir] assms by auto
  show "\<exists>s'. captureLoop_for w sp ep z dl dir sp s = (False, s')
            \<and> int (length (images s')) = totalPages s \<and> totalPages s' = totalPages s"
    if "isRunning s" "\<forall>t. \<not> stopAt w t" "\<forall>t. zoomOk w t"
       "\<forall>t. \<exists>d. shot w t = Some d \<and> d \<noteq> []"
    using loop_resolves[OF that, of sp ep sp z dl dir] assms by auto
  show "int (length (images (captureLoop w s))) \<le> totalPages s"
    if "sp = startPage s" "ep = endPage s"
    using captureLoop_bounded[of s w] assms that by simp
qed

text \<open>
  The loop with an inbox is the loop above when the inbox holds the stops of the world and
  nothing else, and \<open>handleStartCapture\<close> begins with \<open>handleStartCapture_begin\<close>.
\<close>

lemma fold_stops:
  "fold (\<lambda>t. fold (listener w t) (stops_of w t)) ts s
   = s\<lparr>isRunning := isRunning s \<and> \<not> list_ex (stopAt w) ts\<rparr>"
  by (induction ts arbitrary: s) (simp_all add: stops_of_def)

lemma during_inbox_stops: "during_inbox (stops_of w) w s e' = during w s e'"
  by (simp add: during_inbox_def during_def fold_stops)

lemma generatePdf_inbox_stops: "generatePdf_inbox (stops_of w) w s = generatePdf w s"
  by (simp add: generatePdf_inbox_def generatePdf_def during_inbox_stops Let_def)

lemma captureLoop_body_inbox_stops:
  "captureLoop_body_inbox (stops_of w) w sp z dl dir page s = captureLoop_body w sp z dl dir page s"
  by (simp add: captureLoop_body_inbox_def captureLoop_body_def during_inbox_stops
        generatePdf_inbox_stops Let_def
        cong: if_cong option.case_cong prod.case_cong)

lemma navigate_for_inbox_stops:
  "navigate_for_inbox (stops_of w) w sp dl dir i s = navigate_for w sp dl dir i s"
proof (induction w sp dl dir i s rule: navigate_for.induct)
  case (1 w sp dl dir i s)
  show ?case
  proof (cases "i < sp \<and> isRunning s")
    case True
    with "1.IH" show ?thesis
      by (subst navigate_for_inbox.simps, subst navigate_for.simps)
         (simp add: during_inbox_stops)
  next
    case False
    then show ?thesis
      by (subst navigate_for_inbox.simps, subst navigate_for.simps) auto
  qed
qed

lemma captureLoop_for_inbox_stops:
  "captureLoop_for_inbox (stops_of w) w sp ep z dl dir page s = captureLoop_for w sp ep z dl dir page s"
proof (induction w sp ep z dl dir page s rule: captureLoop_for.induct)
  case (1 w sp ep z dl dir page s)
  show ?case
  proof (cases "page \<le> ep")
    case False
    then show ?thesis
      by (subst captureLoop_for_inbox.simps, subst captureLoop_for.simps) simp
  next
    case le: True
    show ?thesis
    proof (cases "captureLoop_body w sp z dl dir page s")
      case (Continue r s')
      from "1.IH"[OF le Continue] Continue le show ?thesis
        by (subst captureLoop_for_inbox.simps, subst captureLoop_for.simps)
           (simp add: captureLoop_body_inbox_stops)
    qed (use le in \<open>subst captureLoop_for_inbox.simps, subst captureLoop_for.simps,
                    simp add: captureLoop_body_inbox_stops\<close>)+
  qed
qed

lemma captureLoop_finish_inbox_stops:
  "captureLoop_finish_inbox (stops_of w) w s = captureLoop_finish w s"
  by (simp add: captureLoop_finish_inbox_def captureLoop_finish_def generatePdf_inbox_stops)

lemma captureLoop_inbox_stops: "captureLoop_inbox (stops_of w) w s = captureLoop w s"
  by (simp add: captureLoop_inbox_def captureLoop_def captureLoop_finish_inbox_stops
        navigate_for_inbox_stops captureLoop_for_inbox_stops Let_def
        cong: if_cong prod.case_cong bool.case_cong)

lemma handleStartCapture_begin_agrees:
  assumes "\<not> isRunning s"
  shows "handleStartCapture w active msg s =
     (let s1 = handleStartCapture_begin active msg (during w s (tick (browser s)))
      in if \<not> isRunning s1
         then ([Error (if active = None then NoActiveTab else NotKindlePage)], s1)
         else (case ensureContentScript w (browser s1) of
                 (False, e2) \<Rightarrow>
                   ([Ok, Error StartFailed], stopKeepAlive ((during w s1 e2)\<lparr>isRunning := False\<rparr>))
               | (True, e2) \<Rightarrow> ([Ok], captureLoop w (startKeepAlive (during w s1 e2)))))"
proof -
  have nr: "\<not> isRunning (during w s (tick (browser s)))"
    using assms by (simp add: during_def)
  show ?thesis
    using assms nr
    by (cases active)
       (simp_all add: handleStartCapture_def handleStartCapture_begin_def Let_def)
qed

text \<open>
  C8. The claim asks that the number of accumulated frames never exceeds \<open>totalPages\<close>.
  \<open>handleStartCapture\<close> refuses a second session while \<open>isRunning\<close> is set, but
  \<open>stopCapture\<close> clears \<open>isRunning\<close> at once, while the loop of the stopped session is
  still suspended in an await. In a session for pages 1 to 5, as \<open>handleStartCapture\<close>
  sets it up, the user presses stop and then start for page 50 alone, a message the popup
  accepts, while the loop waits for the turn to page 3 (clock 15): the handler sets
  \<open>isRunning\<close> again, empties \<open>images\<close> and sets \<open>totalPages\<close> to 1. The check after the page
  turn then finds \<open>isRunning\<close> set, and the loop appends the frames of pages 3, 4 and 5:
  after the main loop and when \<open>captureLoop\<close> returns there are three frames with
  \<open>totalPages = 1\<close>, and the popup was told 5 of 1. The main loop is left at clock 39, 24
  steps after the restart; the second activation has 49 page turns of at least two awaits
  each before its first capture. When no message arrives, the same loop ends with five
  frames and \<open>totalPages = 5\<close>.
\<close>

theorem restart_during_page_turn_exceeds_totalPages:
  "startKeepAlive (handleStartCapture_begin (Some kindle_tab) (start_msg 1 5 2000)
                     (captureState_init e0)) = session_1_5
   \<and> startBtn_click (popup_form (Some 50) (Some 50) (Some 2000)) = Inr (start_msg 50 50 2000)
   \<and> fst (captureLoop_for_inbox restart_inbox w_png 1 5 2 2000 Prev 1 session_1_5) = False
   \<and> images (snd (captureLoop_for_inbox restart_inbox w_png 1 5 2 2000 Prev 1 session_1_5))
     = [png_frame 40000, png_frame 40000, png_frame 40000]
   \<and> totalPages (snd (captureLoop_for_inbox restart_inbox w_png 1 5 2 2000 Prev 1 session_1_5)) = 1
   \<and> clock (browser (snd (captureLoop_for_inbox restart_inbox w_png 1 5 2 2000 Prev 1 session_1_5)))
     = 39
   \<and> images (captureLoop_inbox restart_inbox w_png session_1_5)
     = [png_frame 40000, png_frame 40000, png_frame 40000]
   \<and> totalPages (captureLoop_inbox restart_inbox w_png session_1_5) = 1
   \<and> Progress 5 1 \<in> set (sent (captureLoop_inbox restart_inbox w_png session_1_5))
   \<and> images (captureLoop_inbox empty_inbox w_png session_1_5)
     = [png_frame 40000, png_frame 40000, png_frame 40000, png_frame 40000, png_frame 40000]
   \<and> totalPages (captureLoop_inbox empty_inbox w_png session_1_5) = 5"
  by (simp add: evals evals_inbox startBtn_click_def popup_form_def)




section \<open>The capture loop: stopping\<close>

lemma sendBatches_no_end: "filter is_end (sendBatches imgs i) = []"
proof (induction imgs i rule: sendBatches.induct)
  case (1 imgs i)
  then show ?case by (subst sendBatches.simps) simp
qed

lemma generatePdf_no_end: "filter is_end (sent (generatePdf w s)) = filter is_end (sent s)"
  by (simp add: generatePdf_def generatePdf_messages_def Let_def broadcast_def sendBatches_no_end)

lemma body_ends:
  "captureLoop_body w sp z dl dir page s = Continue r s' \<Longrightarrow>
     filter is_end (sent s') = filter is_end (sent s)"
  "captureLoop_body w sp z dl dir page s = Broke s' \<Longrightarrow>
     filter is_end (sent s') = filter is_end (sent s)"
  "captureLoop_body w sp z dl dir page s = Returned s' \<Longrightarrow>
     filter is_end (sent s') = filter is_end (sent s) @ [CaptureStopped]"
  by (auto simp: captureLoop_body_def Let_def broadcastProgress_def broadcast_def
        stopKeepAlive_def generatePdf_no_end
        split: if_splits prod.splits option.splits)

lemma loop_ends:
  "captureLoop_for w sp ep z dl dir page s = (returned, s') \<Longrightarrow>
   filter is_end (sent s') = filter is_end (sent s) @ (if returned then [CaptureStopped] else [])"
proof (induction w sp ep z dl dir page s rule: captureLoop_for.induct)
  case (1 w sp ep z dl dir page s)
  show ?case
  proof (cases "page \<le> ep")
    case False
    with "1.prems" show ?thesis
      by (subst (asm) captureLoop_for.simps) auto
  next
    case le: True
    show ?thesis
    proof (cases "captureLoop_body w sp z dl dir page s")
      case (Returned s1)
      with le "1.prems" body_ends(3)[OF Returned] show ?thesis
        by (subst (asm) captureLoop_for.simps) auto
    next
      case (Broke s1)
      with le "1.prems" body_ends(2)[OF Broke] show ?thesis
        by (subst (asm) captureLoop_for.simps) auto
    next
      case (Continue r s1)
      have "captureLoop_for w sp ep z dl dir (page + 1) s1 = (returned, s')"
        using le Continue "1.prems" by (subst (asm) captureLoop_for.simps) simp
      from "1.IH"[OF le Continue this] body_ends(1)[OF Continue] show ?thesis by simp
    qed
  qed
qed

lemma navigate_for_sent: "sent (navigate_for w sp dl dir i s) = sent s"
proof (induction w sp dl dir i s rule: navigate_for.induct)
  case (1 w sp dl dir i s)
  show ?case
  proof (cases "i < sp \<and> isRunning s")
    case True
    with "1.IH" show ?thesis
      by (subst navigate_for.simps) (simp add: during_def)
  next
    case False
    then show ?thesis
      by (subst navigate_for.simps) auto
  qed
qed

text \<open>
  One run of \<open>captureLoop\<close> broadcasts at most one of \<open>captureStopped\<close> and
  \<open>captureComplete\<close>, and exactly one of them when it ends with frames.
\<close>

lemma captureLoop_ends_once:
  "\<exists>ts. filter is_end (sent (captureLoop w s)) = filter is_end (sent s) @ ts
        \<and> (ts = [] \<or> ts = [CaptureStopped] \<or> ts = [CaptureComplete])
        \<and> (images (captureLoop w s) \<noteq> [] \<longrightarrow> ts \<noteq> [])"
proof -
  let ?dir = "if pageDirection s = Left then Prev else Next"
  let ?s1 = "if 1 < startPage s
             then navigate_for w (startPage s) (delay s) ?dir 1 (broadcastProgress 0 (totalPages s) s)
             else s"
  obtain returned s2 where
    out: "captureLoop_for w (startPage s) (endPage s) (zoomLevel s) (delay s) ?dir (startPage s) ?s1
          = (returned, s2)"
    by (cases "captureLoop_for w (startPage s) (endPage s) (zoomLevel s) (delay s) ?dir (startPage s) ?s1")
  have s1: "filter is_end (sent ?s1) = filter is_end (sent s)"
    by (simp add: navigate_for_sent broadcastProgress_def broadcast_def)
  from loop_ends[OF out] s1
  have s2: "filter is_end (sent s2) = filter is_end (sent s) @ (if returned then [CaptureStopped] else [])"
    by simp
  show ?thesis
  proof (cases returned)
    case True
    with out have "captureLoop w s = s2" by (simp add: captureLoop_def Let_def)
    with s2 True show ?thesis by simp
  next
    case False
    with out have cl: "captureLoop w s = captureLoop_finish w s2" by (simp add: captureLoop_def Let_def)
    show ?thesis
    proof (cases "\<not> isRunning s2 \<and> length (images s2) = 0")
      case True
      with cl s2 False show ?thesis
        by (simp add: captureLoop_finish_def stopKeepAlive_def)
    next
      case nf: False
      then have "filter is_end (sent (captureLoop w s)) = filter is_end (sent s) @ [CaptureComplete]"
        using cl s2 False
        by (auto simp: captureLoop_finish_def generatePdf_no_end broadcast_def stopKeepAlive_def)
      then show ?thesis by simp
    qed
  qed
qed

text \<open>
  C5. The claim asks for \<open>captureStopped\<close> whenever a session is stopped after some frames
  were captured. In a session for pages 1 to 5, a stop that arrives while the worker waits
  for the turn to page 3 (clock 17) is seen by the check after the page turn: the loop is
  left by \<open>break\<close>, and the code after the loop broadcasts \<open>captureComplete\<close> and hands the
  two frames to \<open>generatePdf\<close>, from which the offscreen document builds two pages. No
  \<open>captureStopped\<close> is sent.
\<close>

theorem stop_during_page_turn_reports_complete:
  "fst (handleStartCapture (w_fine\<lparr>stopAt := (\<lambda>t. t = 17)\<rparr>) (Some kindle_tab)
          (start_msg 1 5 2000) (captureState_init e0)) = [Ok]
   \<and> sent (snd (handleStartCapture (w_fine\<lparr>stopAt := (\<lambda>t. t = 17)\<rparr>) (Some kindle_tab)
          (start_msg 1 5 2000) (captureState_init e0)))
     = [Progress 1 5, Progress 2 5, CaptureComplete,
        GeneratePdf [frame 50000, frame 50000] 0 0 0 0]
   \<and> CaptureStopped \<notin> set (sent (snd (handleStartCapture (w_fine\<lparr>stopAt := (\<lambda>t. t = 17)\<rparr>)
          (Some kindle_tab) (start_msg 1 5 2000) (captureState_init e0))))
   \<and> map (pdf_contents \<circ> run_build dec_1280)
       (snd (onMessage offscreen_init (GeneratePdf [frame 50000, frame 50000] 0 0 0 0)))
     = [[Orig (frame 50000), Orig (frame 50000)]]"
  by (simp add: evals run_build_def buildPdf_call_def buildPdf_plain dec_1280_def)

text \<open>
  C3. The claim asks that a stopped session reports \<open>captureStopped\<close> exactly once. A stop
  that arrives during the first wait of the session (clock 2) is seen by the check after
  the wait: the loop is left by \<open>break\<close> and, no frame being captured, \<open>captureLoop\<close>
  returns without any broadcast. A stop that arrives during the capture of page 2
  (clock 14) is seen at the head of the next pass, which does broadcast \<open>captureStopped\<close>;
  the download of the document then adds \<open>downloadReady\<close>.
\<close>

theorem stop_during_first_wait_reports_nothing:
  "fst (handleStartCapture (w_fine\<lparr>stopAt := (\<lambda>t. t = 2)\<rparr>) (Some kindle_tab)
          (start_msg 1 5 2000) (captureState_init e0)) = [Ok]
   \<and> sent (snd (handleStartCapture (w_fine\<lparr>stopAt := (\<lambda>t. t = 2)\<rparr>) (Some kindle_tab)
          (start_msg 1 5 2000) (captureState_init e0))) = []
   \<and> \<not> isRunning (snd (handleStartCapture (w_fine\<lparr>stopAt := (\<lambda>t. t = 2)\<rparr>) (Some kindle_tab)
          (start_msg 1 5 2000) (captureState_init e0)))
   \<and> sent (handlePdfReady (w_fine\<lparr>stopAt := (\<lambda>t. t = 14)\<rparr>)
            (snd (handleStartCapture (w_fine\<lparr>stopAt := (\<lambda>t. t = 14)\<rparr>) (Some kindle_tab)
                    (start_msg 1 5 2000) (captureState_init e0))))
     = [Progress 1 5, Progress 2 5, CaptureStopped,
        GeneratePdf [frame 50000, frame 50000] 0 0 0 0, DownloadReady 2]"
  by (simp add: evals handlePdfReady_def)

section \<open>Starting a session\<close>




end
